theory Spec2Isabelle
  imports Main "HOL-Library.AList" "HOL-Library.Multiset"
begin

section \<open>Data model (types.ts)\<close>

text \<open>
  A dependency range is typed \<^verbatim>\<open>string\<close> in \<^verbatim>\<open>PackageJson\<close>, but the records come from
  \<^verbatim>\<open>JSON.parse\<close> and \<^verbatim>\<open>version\<close> tests \<^verbatim>\<open>typeof range !== 'string'\<close>, so the value of a
  dependency entry is a JSON scalar. A dependency map is the list of its entries in the
  order \<^verbatim>\<open>Object.keys\<close> and \<^verbatim>\<open>Object.entries\<close> enumerate them; an absent field is \<open>None\<close>.
  Strings are lists of 8-bit characters.
\<close>

datatype json = JStr string | JNum int | JBool bool | JNull

type_synonym deps = "(string \<times> json) list"

record PackageJson =
  name :: string
  version :: string
  dependencies :: "deps option"
  devDependencies :: "deps option"
  peerDependencies :: "deps option"
  optionalDependencies :: "deps option"

datatype DependencyField = Dependencies | DevDependencies | PeerDependencies | OptionalDependencies

fun get_field :: "PackageJson \<Rightarrow> DependencyField \<Rightarrow> deps option" where
  "get_field pkg Dependencies = dependencies pkg"
| "get_field pkg DevDependencies = devDependencies pkg"
| "get_field pkg PeerDependencies = peerDependencies pkg"
| "get_field pkg OptionalDependencies = optionalDependencies pkg"

fun set_field :: "PackageJson \<Rightarrow> DependencyField \<Rightarrow> deps option \<Rightarrow> PackageJson" where
  "set_field pkg Dependencies d = pkg\<lparr>dependencies := d\<rparr>"
| "set_field pkg DevDependencies d = pkg\<lparr>devDependencies := d\<rparr>"
| "set_field pkg PeerDependencies d = pkg\<lparr>peerDependencies := d\<rparr>"
| "set_field pkg OptionalDependencies d = pkg\<lparr>optionalDependencies := d\<rparr>"

record WorkspacePackage =
  dir :: string
  pkgPath :: string
  name :: string
  version :: string
  data :: PackageJson

datatype BumpType = Patch | Minor | Major | Auto

datatype PackageManager = Npm | Yarn | Pnpm

text \<open>
  A JavaScript \<^verbatim>\<open>Map\<close> keeps its keys in insertion order and \<^verbatim>\<open>set\<close> on a present key
  replaces the value in place: an association list with \<^const>\<open>AList.update\<close>.
  A JavaScript \<^verbatim>\<open>Set\<close> is the list of its members in first-insertion order.
\<close>

type_synonym ('k, 'v) js_map = "('k \<times> 'v) list"

abbreviation Map_get :: "('k, 'v) js_map \<Rightarrow> 'k \<Rightarrow> 'v option" where
  "Map_get m k \<equiv> map_of m k"

abbreviation Map_has :: "('k, 'v) js_map \<Rightarrow> 'k \<Rightarrow> bool" where
  "Map_has m k \<equiv> map_of m k \<noteq> None"

abbreviation Map_set :: "('k, 'v) js_map \<Rightarrow> 'k \<Rightarrow> 'v \<Rightarrow> ('k, 'v) js_map" where
  "Map_set m k v \<equiv> AList.update k v m"

definition Map_new :: "('k \<times> 'v) list \<Rightarrow> ('k, 'v) js_map" where
  "Map_new kvs = foldl (\<lambda>m (k, v). Map_set m k v) [] kvs"

definition Set_new :: "'a list \<Rightarrow> 'a list" where
  "Set_new xs = foldl (\<lambda>s x. if x \<in> set s then s else s @ [x]) [] xs"

record WorkspaceInfo =
  packages :: "WorkspacePackage list"
  byName :: "(string, WorkspacePackage) js_map"
  graph :: "(string, string list) js_map"

text \<open>
  Every failure of the source is \<^verbatim>\<open>throw new Error(message)\<close>; the constructors carry the
  interpolated part and \<open>message\<close> gives the text thrown.
\<close>

datatype error =
    InvalidSemver string
  | InconsistentVersions "string list"
  | CycleDetected
  | MissingTag
  | PackageNotFound string

fun join :: "string \<Rightarrow> string list \<Rightarrow> string" where
  "join sep [] = []"
| "join sep [x] = x"
| "join sep (x # y # ys) = x @ sep @ join sep (y # ys)"

fun message :: "error \<Rightarrow> string" where
  "message (InvalidSemver v) = ''Not a semver version: '' @ v"
| "message (InconsistentVersions found) =
     ''Lockstep requires all packages have the same version. Found: '' @ join '', '' found"
| "message CycleDetected = ''Cycle detected in local dependency graph.''"
| "message MissingTag = ''--tag parameter is required for publish command''"
| "message (PackageNotFound n) = ''Package '' @ n @ '' not found in workspace''"

section \<open>buildWorkspace\<close>

definition DEP_FIELDS :: "DependencyField list" where
  "DEP_FIELDS = [Dependencies, DevDependencies, PeerDependencies, OptionalDependencies]"

text \<open>
  The argument of \<open>buildWorkspace\<close> is what \<^verbatim>\<open>findPackageDirs\<close> and \<^verbatim>\<open>readJSON\<close> deliver: the
  package directories in discovery order, each with its parsed manifest.
\<close>

definition mk_package :: "string \<times> PackageJson \<Rightarrow> WorkspacePackage" where
  "mk_package = (\<lambda>(d, pkg).
     \<lparr>dir = d, pkgPath = d @ ''/package.json'', name = PackageJson.name pkg,
      version = PackageJson.version pkg, data = pkg\<rparr>)"

text \<open>
  \<^verbatim>\<open>graph.get(depName)!.push(p.name)\<close>. The lookup is guarded by \<^verbatim>\<open>byName.has(depName)\<close>,
  and every name of \<^verbatim>\<open>byName\<close> was given an entry of the graph before, so the lookup never
  misses (\<open>graph_has_names\<close> below); the \<open>None\<close> branch is dead.
\<close>

definition push_dependent ::
  "(string, string list) js_map \<Rightarrow> string \<Rightarrow> string \<Rightarrow> (string, string list) js_map" where
  "push_dependent g depName pname =
     (case Map_get g depName of
        Some vs \<Rightarrow> Map_set g depName (vs @ [pname])
      | None \<Rightarrow> g)"

definition scan_dep ::
  "(string, WorkspacePackage) js_map \<Rightarrow> WorkspacePackage \<Rightarrow>
   (string, string list) js_map \<Rightarrow> string \<Rightarrow> (string, string list) js_map" where
  "scan_dep byNm p g depName =
     (if Map_has byNm depName then push_dependent g depName (name p) else g)"

definition scan_field ::
  "(string, WorkspacePackage) js_map \<Rightarrow> WorkspacePackage \<Rightarrow>
   (string, string list) js_map \<Rightarrow> DependencyField \<Rightarrow> (string, string list) js_map" where
  "scan_field byNm p g field =
     (let deps = (case get_field (data p) field of Some d \<Rightarrow> d | None \<Rightarrow> [])
      in foldl (scan_dep byNm p) g (map fst deps))"

definition scan_package ::
  "(string, WorkspacePackage) js_map \<Rightarrow> (string, string list) js_map \<Rightarrow>
   WorkspacePackage \<Rightarrow> (string, string list) js_map" where
  "scan_package byNm g p = foldl (scan_field byNm p) g DEP_FIELDS"

definition buildWorkspace :: "(string \<times> PackageJson) list \<Rightarrow> WorkspaceInfo" where
  "buildWorkspace manifests =
     (let pkgs = map mk_package manifests;
          byNm = Map_new (map (\<lambda>p. (name p, p)) pkgs);
          graph0 = foldl (\<lambda>g p. Map_set g (name p) []) [] pkgs;
          graph1 = foldl (scan_package byNm) graph0 pkgs
      in \<lparr>packages = pkgs, byName = byNm, graph = graph1\<rparr>)"

section \<open>ensureAllSameVersion\<close>

definition ensureAllSameVersion :: "WorkspacePackage list \<Rightarrow> error + string" where
  "ensureAllSameVersion pkgs =
     (let s = Set_new (map version pkgs)
      in if length s \<noteq> 1 then Inl (InconsistentVersions s) else Inr (s ! 0))"

section \<open>Strings, numbers and regular expressions of the JavaScript source\<close>

fun startsWith :: "string \<Rightarrow> string \<Rightarrow> bool" where
  "startsWith s [] = True"
| "startsWith [] (p # ps) = False"
| "startsWith (x # xs) (p # ps) = (x = p \<and> startsWith xs ps)"

fun str_includes :: "string \<Rightarrow> string \<Rightarrow> bool" where
  "str_includes [] sub = (sub = [])"
| "str_includes (x # xs) sub = (startsWith (x # xs) sub \<or> str_includes xs sub)"

text \<open>
  The regular expressions of the source use literal characters, \<^verbatim>\<open>.\<close>, \<^verbatim>\<open>\d\<close>, sequence,
  alternation, \<^verbatim>\<open>?\<close>, \<^verbatim>\<open>+\<close>, capture groups and \<^verbatim>\<open>$\<close>. \<open>bt\<close> is the backtracking matcher:
  from a state (the captures so far, the input left) it lists the states after a match of
  the expression, in the order the engine tries them (greedy quantifiers take the longer
  match first). All three expressions begin with \<^verbatim>\<open>^\<close> and carry no flag, so a match can
  only begin at index 0, where \<open>rx_exec\<close> runs the matcher; it returns the captures of the
  first match (group 1 first; an optional group that took no part leaves no entry).
  \<^verbatim>\<open>.\<close> excludes the line terminators, \<^verbatim>\<open>\d\<close> is \<^verbatim>\<open>[0-9]\<close>.
\<close>

datatype rx =
    Eps
  | Chr char
  | Dot
  | Digit
  | Seq rx rx
  | Alt rx rx
  | Opt rx
  | Plus rx
  | Grp rx
  | Eoi

definition is_line_terminator :: "char \<Rightarrow> bool" where
  "is_line_terminator c = (c = CHR 0x0A \<or> c = CHR 0x0D)"

definition is_digit :: "char \<Rightarrow> bool" where
  "is_digit c = (c \<in> set ''0123456789'')"

type_synonym rx_state = "string list \<times> string"

function (sequential) bt :: "rx \<Rightarrow> rx_state \<Rightarrow> rx_state list" where
  "bt Eps st = [st]"
| "bt (Chr c) (caps, []) = []"
| "bt (Chr c) (caps, x # xs) = (if x = c then [(caps, xs)] else [])"
| "bt Dot (caps, []) = []"
| "bt Dot (caps, x # xs) = (if is_line_terminator x then [] else [(caps, xs)])"
| "bt Digit (caps, []) = []"
| "bt Digit (caps, x # xs) = (if is_digit x then [(caps, xs)] else [])"
| "bt (Seq r1 r2) st = concat (map (bt r2) (bt r1 st))"
| "bt (Alt r1 r2) st = bt r1 st @ bt r2 st"
| "bt (Opt r) st = bt r st @ [st]"
| "bt (Plus r) st =
     concat (map (\<lambda>st'. (if length (snd st') < length (snd st) then bt (Plus r) st' else []) @ [st'])
                 (bt r st))"
| "bt (Grp r) (caps, s) =
     map (\<lambda>(caps', s'). (caps' @ [take (length s - length s') s], s')) (bt r (caps, s))"
| "bt Eoi (caps, s) = (if s = [] then [(caps, s)] else [])"
  by pat_completeness auto
termination
  by (relation "inv_image (less_than <*lex*> less_than) (\<lambda>(r, st). (size r, length (snd st)))")
     auto

text \<open>The equation of \<open>Plus\<close> is applied by hand: as a rewrite rule it would not stop.\<close>

declare bt.simps(11) [simp del]

fun lit :: "string \<Rightarrow> rx" where
  "lit [] = Eps"
| "lit (c # cs) = Seq (Chr c) (lit cs)"

definition rx_exec :: "rx \<Rightarrow> string \<Rightarrow> string list option" where
  "rx_exec r s = (case bt r ([], s) of [] \<Rightarrow> None | (caps, rest) # _ \<Rightarrow> Some caps)"

text \<open>
  \<^verbatim>\<open>+MA\<close> reads a string of decimal digits as a number and the template literal prints a
  number in decimal. JavaScript numbers are doubles; the model computes with natural
  numbers, which is what the doubles do for components below \<open>2^53\<close>.
\<close>

definition digit_value :: "char \<Rightarrow> nat" where
  "digit_value c = of_char c - 48"

definition to_number :: "string \<Rightarrow> nat" where
  "to_number ds = foldl (\<lambda>n c. 10 * n + digit_value c) 0 ds"

definition digit_char :: "nat \<Rightarrow> char" where
  "digit_char d = ''0123456789'' ! d"

fun to_string :: "nat \<Rightarrow> string" where
  "to_string n = (if n < 10 then [digit_char n] else to_string (n div 10) @ [digit_char (n mod 10)])"

declare to_string.simps [simp del]

section \<open>semverBump and preserveOperator\<close>

text \<open>\<^verbatim>\<open>/^(\d+)\.(\d+)\.(\d+)(-.+)?$/\<close>\<close>

definition semver_rx :: rx where
  "semver_rx =
     Seq (Grp (Plus Digit)) (Seq (Chr CHR ''.'')
    (Seq (Grp (Plus Digit)) (Seq (Chr CHR ''.'')
    (Seq (Grp (Plus Digit))
    (Seq (Opt (Grp (Seq (Chr CHR ''-'') (Plus Dot)))) Eoi)))))"

text \<open>
  A match of \<open>semver_rx\<close> carries its three mandatory groups (\<open>semver_captures\<close> below), so
  the reads \<open>m ! 0\<close>, \<open>m ! 1\<close>, \<open>m ! 2\<close> of \<^verbatim>\<open>const [, MA, MI, PA] = m\<close> are in range. The type
  of the parameter excludes \<^verbatim>\<open>'auto'\<close>; the chain of tests leaves such a value unchanged.
\<close>

definition semverBump :: "string \<Rightarrow> BumpType \<Rightarrow> error + string" where
  "semverBump v kind =
     (case rx_exec semver_rx v of
        None \<Rightarrow> Inl (InvalidSemver v)
      | Some m \<Rightarrow>
          let major = to_number (m ! 0);
              minor = to_number (m ! 1);
              patch = to_number (m ! 2);
              (major, minor, patch) =
                (if kind = Major then (major + 1, 0, 0)
                 else if kind = Minor then (major, minor + 1, 0)
                 else if kind = Patch then (major, minor, patch + 1)
                 else (major, minor, patch))
          in Inr (to_string major @ ''.'' @ to_string minor @ ''.'' @ to_string patch))"

definition preserveOperator :: "string \<Rightarrow> string \<Rightarrow> string" where
  "preserveOperator oldRange newVersion =
     (if startsWith oldRange ''^'' then ''^'' @ newVersion
      else if startsWith oldRange ''~'' then ''~'' @ newVersion
      else if startsWith oldRange ''>='' then ''>='' @ newVersion
      else if startsWith oldRange ''='' then ''='' @ newVersion
      else newVersion)"

section \<open>topoSort\<close>

text \<open>
  The in-degrees are JavaScript numbers in a \<^verbatim>\<open>Map\<close>: \<^verbatim>\<open>inDeg.get(v) || 0\<close> reads a missing
  entry as 0 and \<^verbatim>\<open>inDeg.get(v)! - 1\<close> turns a missing entry into \<^verbatim>\<open>NaN\<close>.
\<close>

datatype jsnum = Num int | NaN

fun or_zero :: "jsnum option \<Rightarrow> jsnum" where
  "or_zero None = Num 0"
| "or_zero (Some NaN) = Num 0"
| "or_zero (Some (Num i)) = Num i"

fun plus_one :: "jsnum \<Rightarrow> jsnum" where
  "plus_one (Num i) = Num (i + 1)"
| "plus_one NaN = NaN"

fun minus_one :: "jsnum option \<Rightarrow> jsnum" where
  "minus_one (Some (Num i)) = Num (i - 1)"
| "minus_one (Some NaN) = NaN"
| "minus_one None = NaN"

definition count_edge :: "(string, jsnum) js_map \<Rightarrow> string \<Rightarrow> (string, jsnum) js_map" where
  "count_edge inDeg v = Map_set inDeg v (plus_one (or_zero (Map_get inDeg v)))"

definition in_degrees ::
  "WorkspacePackage list \<Rightarrow> (string, string list) js_map \<Rightarrow> (string, jsnum) js_map" where
  "in_degrees pkgs g =
     foldl (\<lambda>inDeg (k, vs). foldl count_edge inDeg vs)
           (Map_new (map (\<lambda>p. (name p, Num 0)) pkgs)) g"

definition dependents_of :: "(string, string list) js_map \<Rightarrow> string \<Rightarrow> string list" where
  "dependents_of g n = (case Map_get g n of Some vs \<Rightarrow> vs | None \<Rightarrow> [])"

definition relax ::
  "(string, jsnum) js_map \<times> string list \<Rightarrow> string \<Rightarrow> (string, jsnum) js_map \<times> string list" where
  "relax = (\<lambda>(inDeg, q) v.
     let currentDeg = minus_one (Map_get inDeg v);
         inDeg' = Map_set inDeg v currentDeg
     in (inDeg', if currentDeg = Num 0 then q @ [v] else q))"

fun is_pos :: "jsnum \<Rightarrow> bool" where
  "is_pos (Num i) = (0 < i)"
| "is_pos NaN = False"

definition npos :: "(string, jsnum) js_map \<Rightarrow> nat" where
  "npos m = length (filter (\<lambda>kv. is_pos (snd kv)) m)"

text \<open>The \<^verbatim>\<open>while (q.length)\<close> loop: the queue, the output and the in-degrees are the state.\<close>

function kahn_loop ::
  "(string, string list) js_map \<Rightarrow> (string, jsnum) js_map \<Rightarrow> string list \<Rightarrow> string list
   \<Rightarrow> string list" where
  "kahn_loop g inDeg [] out = out"
| "kahn_loop g inDeg (n # q) out =
     (case foldl relax (inDeg, q) (dependents_of g n) of
        (inDeg', q') \<Rightarrow> kahn_loop g inDeg' q' (out @ [n]))"
  by pat_completeness auto

lemma npos_update:
  "npos (AList.update k v m)
     + (case map_of m k of Some w \<Rightarrow> if is_pos w then 1 else 0 | None \<Rightarrow> 0)
   = npos m + (if is_pos v then 1 else 0)"
  by (induction m) (auto simp: npos_def)

lemma relax_measure:
  "relax (inDeg, q) v = (inDeg', q') \<Longrightarrow> length q' + npos inDeg' \<le> length q + npos inDeg"
  using npos_update[of v "minus_one (map_of inDeg v)" inDeg]
  by (cases "map_of inDeg v" rule: minus_one.cases)
     (auto simp: relax_def Let_def split: if_splits)

lemma foldl_relax_measure:
  "foldl relax (inDeg, q) vs = (inDeg', q') \<Longrightarrow> length q' + npos inDeg' \<le> length q + npos inDeg"
proof (induction vs arbitrary: inDeg q)
  case Nil
  then show ?case by simp
next
  case (Cons v vs)
  obtain i1 q1 where s: "relax (inDeg, q) v = (i1, q1)" by (cases "relax (inDeg, q) v")
  from Cons.prems s have "foldl relax (i1, q1) vs = (inDeg', q')" by simp
  from Cons.IH[OF this] relax_measure[OF s] show ?case by simp
qed

termination kahn_loop
  apply (relation "measure (\<lambda>(g, inDeg, q, out). length q + npos inDeg)")
   apply simp
  subgoal for g inDeg n q out x1 x2
    using foldl_relax_measure[of inDeg q "dependents_of g n" x1 x2] by simp
  done

text \<open>The array \<^verbatim>\<open>out\<close> when the loop ends (lines 257 to 282), and the check that follows.\<close>

definition emit_order ::
  "WorkspacePackage list \<Rightarrow> (string, string list) js_map \<Rightarrow> string list" where
  "emit_order pkgs g =
     (let inDeg = in_degrees pkgs g;
          q = filter (\<lambda>n. or_zero (Map_get inDeg n) = Num 0) (map name pkgs)
      in kahn_loop g inDeg q [])"

definition topoSort ::
  "WorkspacePackage list \<Rightarrow> (string, string list) js_map \<Rightarrow> error + string list" where
  "topoSort pkgs g =
     (let out = emit_order pkgs g
      in if length out \<noteq> length pkgs then Inl CycleDetected else Inr out)"

section \<open>determineVersionType\<close>

text \<open>\<^verbatim>\<open>/^feat(\(.+\))?:/\<close> and \<^verbatim>\<open>/^(fix|docs|style|refactor|test|chore)(\(.+\))?:/\<close>\<close>

definition scope_rx :: rx where
  "scope_rx = Opt (Grp (Seq (Chr CHR ''('') (Seq (Plus Dot) (Chr CHR '')''))))"

definition feat_rx :: rx where
  "feat_rx = Seq (lit ''feat'') (Seq scope_rx (Chr CHR '':''))"

definition fix_rx :: rx where
  "fix_rx =
     Seq (Grp (Alt (lit ''fix'') (Alt (lit ''docs'') (Alt (lit ''style'')
            (Alt (lit ''refactor'') (Alt (lit ''test'') (lit ''chore'')))))))
         (Seq scope_rx (Chr CHR '':''))"

record flags =
  hasBreaking :: bool
  hasFeature :: bool
  hasFix :: bool

definition scan_commit :: "flags \<Rightarrow> string \<Rightarrow> flags" where
  "scan_commit f commit =
     (if str_includes commit ''BREAKING CHANGE'' \<or> str_includes commit ''!:'' then f\<lparr>hasBreaking := True\<rparr>
      else if rx_exec feat_rx commit \<noteq> None then f\<lparr>hasFeature := True\<rparr>
      else if rx_exec fix_rx commit \<noteq> None then f\<lparr>hasFix := True\<rparr>
      else f)"

definition resolve_bump :: "flags \<Rightarrow> BumpType" where
  "resolve_bump f =
     (if hasBreaking f then Major
      else if hasFeature f then Minor
      else if hasFix f then Patch
      else Patch)"

text \<open>Lines 340 to 379: the scan of \<^verbatim>\<open>commitLines\<close> and the decision.\<close>

definition scan_commits :: "string list \<Rightarrow> flags" where
  "scan_commits commitLines =
     foldl scan_commit \<lparr>hasBreaking = False, hasFeature = False, hasFix = False\<rparr> commitLines"

definition classify :: "string list \<Rightarrow> BumpType" where
  "classify commitLines = resolve_bump (scan_commits commitLines)"

text \<open>
  What the version-control collaborator answers: no tag, a failing \<^verbatim>\<open>git log\<close>, or the
  non-blank subject lines since the last tag (none when the log is blank).
\<close>

datatype git_history = NoTags | LogFailed | Commits "string list"

fun determineVersionType :: "git_history \<Rightarrow> BumpType" where
  "determineVersionType NoTags = Patch"
| "determineVersionType LogFailed = Patch"
| "determineVersionType (Commits commitLines) =
     (if commitLines = [] then Patch else classify commitLines)"

section \<open>version\<close>

record VersionOptions =
  bumpType :: BumpType
  skipCi :: bool
  noGitCommit :: bool

record VersionResult =
  nextVersion :: string
  written :: "(string \<times> PackageJson) list"
  rootWritten :: "PackageJson option"
  commitMessage :: "string option"
  gitTag :: "string option"

text \<open>
  The body of the loop over \<^verbatim>\<open>Object.entries(deps)\<close>: the entries are read from the map as
  it was before the loop, the assignment \<^verbatim>\<open>deps[dep] = ...\<close> replaces the value in place.
\<close>

definition bump_entry :: "string list \<Rightarrow> string \<Rightarrow> deps \<Rightarrow> string \<times> json \<Rightarrow> deps" where
  "bump_entry internalNames next ds = (\<lambda>(dep, range).
     if dep \<notin> set internalNames then ds
     else (case range of
             JStr r \<Rightarrow> AList.update dep (JStr (preserveOperator r next)) ds
           | _ \<Rightarrow> ds))"

definition bump_field ::
  "string list \<Rightarrow> string \<Rightarrow> PackageJson \<Rightarrow> DependencyField \<Rightarrow> PackageJson" where
  "bump_field internalNames next pkg field =
     (case get_field pkg field of
        None \<Rightarrow> pkg
      | Some ds \<Rightarrow> set_field pkg field (Some (foldl (bump_entry internalNames next) ds ds)))"

definition bump_package :: "string list \<Rightarrow> string \<Rightarrow> WorkspacePackage \<Rightarrow> PackageJson" where
  "bump_package internalNames next p =
     foldl (bump_field internalNames next) ((data p)\<lparr>PackageJson.version := next\<rparr>) DEP_FIELDS"

text \<open>
  \<open>version_op\<close> is the method \<^verbatim>\<open>version\<close>. Its result lists what the run writes: each
  manifest with its path, the root manifest when there is one with a version, and the
  commit message and tag unless \<^verbatim>\<open>noGitCommit\<close>.
\<close>

definition version_op ::
  "VersionOptions \<Rightarrow> git_history \<Rightarrow> PackageJson option \<Rightarrow> (string \<times> PackageJson) list
   \<Rightarrow> error + VersionResult" where
  "version_op options history rootPkg manifests =
     (let actualType =
            (if bumpType options = Auto then determineVersionType history else bumpType options);
          pkgs = packages (buildWorkspace manifests)
      in case ensureAllSameVersion pkgs of
           Inl e \<Rightarrow> Inl e
         | Inr current \<Rightarrow>
             (case semverBump current actualType of
                Inl e \<Rightarrow> Inl e
              | Inr next \<Rightarrow>
                  let internalNames = Set_new (map name pkgs)
                  in Inr \<lparr>nextVersion = next,
                          written = map (\<lambda>p. (pkgPath p, bump_package internalNames next p)) pkgs,
                          rootWritten =
                            (case rootPkg of
                               None \<Rightarrow> None
                             | Some r \<Rightarrow>
                                 if PackageJson.version r \<noteq> []
                                 then Some (r\<lparr>PackageJson.version := next\<rparr>) else None),
                          commitMessage =
                            (if noGitCommit options then None
                             else Some (''chore(release): v'' @ next
                                        @ (if skipCi options then '' [skip ci]'' else []))),
                          gitTag = (if noGitCommit options then None else Some (''v'' @ next))\<rparr>))"

section \<open>publish\<close>

record PublishOptions =
  access :: "string option"
  dry :: bool
  tag :: string
  gitPush :: bool

record PublishResult =
  publishOrder :: "string list"
  finalTag :: string
  commands :: "(string \<times> string) list"
  pushed :: bool

definition publish_cmd :: "PackageManager \<Rightarrow> string \<Rightarrow> string \<Rightarrow> bool \<Rightarrow> string" where
  "publish_cmd pm acc ftag isDry =
     (let args = [''--access'', acc, ''--tag'', ftag]
      in (if pm = Pnpm then ''pnpm publish '' else ''npm publish '')
         @ join '' '' args @ '' '' @ (if isDry then ''--dry-run'' else []))"

fun publish_each ::
  "WorkspacePackage list \<Rightarrow> string \<Rightarrow> string list \<Rightarrow> error + (string \<times> string) list" where
  "publish_each pkgs cmd [] = Inr []"
| "publish_each pkgs cmd (n # ns) =
     (case find (\<lambda>x. name x = n) pkgs of
        None \<Rightarrow> Inl (PackageNotFound n)
      | Some p \<Rightarrow>
          (case publish_each pkgs cmd ns of
             Inl e \<Rightarrow> Inl e
           | Inr cs \<Rightarrow> Inr ((dir p, cmd) # cs)))"

text \<open>
  \<open>publish_op\<close> is the method \<^verbatim>\<open>publish\<close>; \<open>currentBranch\<close> is the answer of
  \<^verbatim>\<open>git rev-parse --abbrev-ref HEAD\<close>. The result lists the commands run, each with its
  working directory.
\<close>

definition publish_op ::
  "PublishOptions \<Rightarrow> PackageManager \<Rightarrow> string \<Rightarrow> (string \<times> PackageJson) list
   \<Rightarrow> error + PublishResult" where
  "publish_op options pm currentBranch manifests =
     (if tag options = [] then Inl MissingTag
      else
        let ws = buildWorkspace manifests
        in case topoSort (packages ws) (graph ws) of
             Inl e \<Rightarrow> Inl e
           | Inr ord \<Rightarrow>
               let ftag = (if tag options = ''latest'' then ''latest''
                           else currentBranch @ ''-'' @ tag options);
                   acc = (case access options of None \<Rightarrow> ''public'' | Some a \<Rightarrow> a)
               in (case publish_each (packages ws) (publish_cmd pm acc ftag (dry options)) ord of
                     Inl e \<Rightarrow> Inl e
                   | Inr cs \<Rightarrow>
                       Inr \<lparr>publishOrder = ord, finalTag = ftag, commands = cs,
                            pushed = (gitPush options \<and> \<not> dry options)\<rparr>))"

section \<open>Example workspaces\<close>

definition manifest :: "string \<Rightarrow> string \<Rightarrow> deps option \<Rightarrow> deps option \<Rightarrow> PackageJson" where
  "manifest n v ds dev =
     \<lparr>PackageJson.name = n, PackageJson.version = v, dependencies = ds, devDependencies = dev,
      peerDependencies = None, optionalDependencies = None\<rparr>"

text \<open>Three packages, one of them at another version.\<close>

definition ex_versions :: "(string \<times> PackageJson) list" where
  "ex_versions =
     [(''packages/a'', manifest ''a'' ''1.0.0'' None None),
      (''packages/b'', manifest ''b'' ''1.1.0'' None None),
      (''packages/c'', manifest ''c'' ''1.0.0'' None None)]"

section \<open>What the claims speak of\<close>

text \<open>
  The strings \<^verbatim>\<open>/^(\d+)\.(\d+)\.(\d+)(-.+)?$/\<close> accepts, written out: three non-empty runs of
  decimal digits separated by dots, then nothing or a hyphen and at least one character,
  none of them a line terminator. \<open>semver_tail\<close> names the end \<^verbatim>\<open>(-.+)?$\<close> of \<open>semver_rx\<close>.
\<close>

definition semver_tail :: rx where
  "semver_tail = Seq (Opt (Grp (Seq (Chr CHR ''-'') (Plus Dot)))) Eoi"

definition pre_release :: "string \<Rightarrow> bool" where
  "pre_release t \<longleftrightarrow> (\<exists>u. t = CHR ''-'' # u \<and> u \<noteq> [] \<and> list_all (\<lambda>c. \<not> is_line_terminator c) u)"

definition digits :: "string \<Rightarrow> bool" where
  "digits ds \<longleftrightarrow> ds \<noteq> [] \<and> list_all is_digit ds"

definition semver_shape :: "string \<Rightarrow> string \<Rightarrow> string \<Rightarrow> string \<Rightarrow> string \<Rightarrow> bool" where
  "semver_shape v MA MI PA suf \<longleftrightarrow>
     v = MA @ ''.'' @ MI @ ''.'' @ PA @ suf \<and> digits MA \<and> digits MI \<and> digits PA
     \<and> (suf = [] \<or> pre_release suf)"

text \<open>The three tests \<open>scan_commit\<close> makes on a subject line, each on its own.\<close>

definition is_breaking :: "string \<Rightarrow> bool" where
  "is_breaking l \<longleftrightarrow> str_includes l ''BREAKING CHANGE'' \<or> str_includes l ''!:''"

definition is_feature :: "string \<Rightarrow> bool" where
  "is_feature l \<longleftrightarrow> rx_exec feat_rx l \<noteq> None"

definition is_fix :: "string \<Rightarrow> bool" where
  "is_fix l \<longleftrightarrow> rx_exec fix_rx l \<noteq> None"

text \<open>
  The inputs a pattern leaves after a match at the start of \<open>s\<close>, over all the ways of
  matching; and the shape of a conventional-commit subject of type \<open>ty\<close>: the type, an
  optional scope in parentheses (one or more characters, none a line terminator), a colon.
\<close>

definition rests :: "rx \<Rightarrow> string \<Rightarrow> string set" where
  "rests r s = snd ` set (bt r ([], s))"

definition conventional :: "string \<Rightarrow> string \<Rightarrow> bool" where
  "conventional ty l \<longleftrightarrow>
     (\<exists>rest. l = ty @ '':'' @ rest)
     \<or> (\<exists>scope rest. l = ty @ ''('' @ scope @ ''):'' @ rest \<and> scope \<noteq> []
                      \<and> list_all (\<lambda>c. \<not> is_line_terminator c) scope)"

text \<open>
  The names of the workspace members, and what a version bump to \<open>next\<close> is to do with one
  dependency entry: an entry naming a member gets its range rewritten (when the range is
  a string, the only kind \<open>preserveOperator\<close> takes), any other entry stays as it is.
\<close>

definition member_names :: "(string \<times> PackageJson) list \<Rightarrow> string set" where
  "member_names ms = set (map (\<lambda>m. PackageJson.name (snd m)) ms)"

definition rewrite_entry :: "string set \<Rightarrow> string \<Rightarrow> string \<times> json \<Rightarrow> string \<times> json" where
  "rewrite_entry names next = (\<lambda>(dep, range).
     (dep, if dep \<in> names
           then (case range of JStr r \<Rightarrow> JStr (preserveOperator r next) | _ \<Rightarrow> range)
           else range))"

text \<open>
  For the proof: what the loop over the entries \<open>es\<close> has done to an entry of the map.
\<close>

definition entry_rewrite :: "string list \<Rightarrow> string \<Rightarrow> deps \<Rightarrow> string \<times> json \<Rightarrow> string \<times> json" where
  "entry_rewrite N next es = (\<lambda>(k, v).
     case map_of es k of
       None \<Rightarrow> (k, v)
     | Some rg \<Rightarrow>
         if k \<in> set N then (case rg of JStr r \<Rightarrow> (k, JStr (preserveOperator r next)) | _ \<Rightarrow> (k, v))
         else (k, v))"

text \<open>
  The dependency names a record lists, over its four fields in the order of \<open>DEP_FIELDS\<close>,
  and the dependents of a name \<open>d\<close>: one copy of a record's name for every dependency
  entry of that record whose key is \<open>d\<close>, the records in workspace order.
\<close>

definition dep_keys :: "PackageJson \<Rightarrow> string list" where
  "dep_keys pkg =
     concat (map (\<lambda>f. case get_field pkg f of Some ds \<Rightarrow> map fst ds | None \<Rightarrow> []) DEP_FIELDS)"

definition dependents :: "(string \<times> PackageJson) list \<Rightarrow> string \<Rightarrow> string list" where
  "dependents ms d = [PackageJson.name (snd A). A \<leftarrow> ms, k \<leftarrow> dep_keys (snd A), k = d]"

text \<open>A record that lists itself, and a record whose dependency on a member has a number as range.\<close>

definition ex_self :: "(string \<times> PackageJson) list" where
  "ex_self = [(''packages/a'', manifest ''a'' ''1.0.0'' (Some [(''a'', JStr ''^1.0.0'')]) None)]"

definition ex_nonstring :: "(string \<times> PackageJson) list" where
  "ex_nonstring =
     [(''packages/a'', manifest ''a'' ''1.0.0'' (Some [(''b'', JNum 1)]) None),
      (''packages/b'', manifest ''b'' ''1.0.0'' None None)]"

text \<open>
  For the proof: the two nested loops of \<open>buildWorkspace\<close> record, one after the other, the
  pairs (dependency name, dependent) of \<open>dependency_edges\<close>.
\<close>

definition record_edge ::
  "(string, WorkspacePackage) js_map \<Rightarrow> (string, string list) js_map \<Rightarrow> string \<times> string
   \<Rightarrow> (string, string list) js_map" where
  "record_edge byNm g = (\<lambda>(k, n). if Map_has byNm k then push_dependent g k n else g)"

definition dependency_edges :: "WorkspacePackage list \<Rightarrow> (string \<times> string) list" where
  "dependency_edges pkgs = concat (map (\<lambda>p. map (\<lambda>k. (k, name p)) (dep_keys (data p))) pkgs)"

text \<open>
  The edges a graph records, from a dependency to each of its dependents, and the
  workspace-internal dependency relation as the manifests give it: \<open>d\<close> is related to \<open>A\<close>
  when record \<open>A\<close> lists the member \<open>d\<close> in one of its dependency fields.
\<close>

definition graph_edges :: "(string, string list) js_map \<Rightarrow> (string \<times> string) set" where
  "graph_edges g = {(d, p). p \<in> set (dependents_of g d)}"

definition internal_deps :: "(string \<times> PackageJson) list \<Rightarrow> (string \<times> string) set" where
  "internal_deps ms =
     {(d, PackageJson.name (snd A)) | d A.
        A \<in> set ms \<and> d \<in> set (dep_keys (snd A)) \<and> d \<in> member_names ms}"

text \<open>
  For the proof of \<open>topoSort\<close>: the value a JavaScript number stands for; the in-degree a
  name has left once the names of \<open>out\<close> are processed (the adjacency entries naming it in
  the lists of the other names, each entry counted); the position of a name in a list;
  and the invariant of the loop.
\<close>

fun ival :: "jsnum option \<Rightarrow> int" where
  "ival (Some (Num i)) = i"
| "ival (Some NaN) = 0"
| "ival None = 0"

definition is_num :: "(string, jsnum) js_map \<Rightarrow> bool" where
  "is_num m \<longleftrightarrow> (\<forall>k. map_of m k \<noteq> Some NaN)"

definition remaining ::
  "(string, string list) js_map \<Rightarrow> string list \<Rightarrow> string list \<Rightarrow> string \<Rightarrow> nat" where
  "remaining g names out v =
     sum_list (map (\<lambda>d. count_list (dependents_of g d) v) (filter (\<lambda>d. d \<notin> set out) names))"

definition ordered :: "(string, string list) js_map \<Rightarrow> string list \<Rightarrow> bool" where
  "ordered g out \<longleftrightarrow>
     (\<forall>i<length out. \<forall>u. (u, out ! i) \<in> graph_edges g \<longrightarrow> u \<in> set (take i out))"

definition well_formed :: "string list \<Rightarrow> (string, string list) js_map \<Rightarrow> bool" where
  "well_formed names g \<longleftrightarrow>
     distinct names \<and> map fst g = names \<and> (\<forall>vs\<in>snd ` set g. set vs \<subseteq> set names)"

definition kahn_inv ::
  "(string, string list) js_map \<Rightarrow> string list \<Rightarrow> (string, jsnum) js_map \<Rightarrow> string list
   \<Rightarrow> string list \<Rightarrow> bool" where
  "kahn_inv g names inDeg q out \<longleftrightarrow>
     distinct (out @ q) \<and> set (out @ q) \<subseteq> set names
     \<and> (\<forall>v\<in>set names. map_of inDeg v = Some (Num (int (remaining g names out v))))
     \<and> (\<forall>v\<in>set names. v \<in> set (out @ q) \<longleftrightarrow> remaining g names out v = 0)
     \<and> ordered g out"


text \<open>
  The workspace of the end-to-end scenarios: \<open>a\<close> depends on \<open>b\<close> (and on an external
  package), \<open>b\<close> depends on \<open>c\<close>.
\<close>

definition ex_chain :: "(string \<times> PackageJson) list" where
  "ex_chain =
     [(''packages/a'',
       manifest ''a'' ''1.0.0'' (Some [(''b'', JStr ''^1.0.0''), (''lodash'', JStr ''^4.17.0'')]) None),
      (''packages/b'', manifest ''b'' ''1.0.0'' (Some [(''c'', JStr ''~1.0.0'')]) None),
      (''packages/c'', manifest ''c'' ''1.0.0'' None None)]"

text \<open>
  A record that names the same member in two dependency fields, and two records that
  depend on each other.
\<close>

definition ex_dup :: "(string \<times> PackageJson) list" where
  "ex_dup =
     [(''packages/a'',
       manifest ''a'' ''1.0.0'' (Some [(''b'', JStr ''^1.0.0'')]) (Some [(''b'', JStr ''^1.0.0'')])),
      (''packages/b'', manifest ''b'' ''1.0.0'' None None)]"

definition ex_cycle :: "(string \<times> PackageJson) list" where
  "ex_cycle =
     [(''packages/a'', manifest ''a'' ''1.0.0'' (Some [(''b'', JStr ''^1.0.0'')]) None),
      (''packages/b'', manifest ''b'' ''1.0.0'' (Some [(''a'', JStr ''^1.0.0'')]) None),
      (''packages/c'', manifest ''c'' ''1.0.0'' None None)]"

text \<open>
  Two records of the same name, against the data model of the specification, in which the
  name of a package is unique within the workspace.
\<close>

definition ex_twins :: "(string \<times> PackageJson) list" where
  "ex_twins =
     [(''packages/a'', manifest ''a'' ''1.0.0'' None None),
      (''packages/a2'', manifest ''a'' ''1.0.0'' (Some [(''b'', JStr ''^1.0.0'')]) None),
      (''packages/b'', manifest ''b'' ''1.0.0'' None None)]"

section \<open>Basic facts\<close>

lemma packages_buildWorkspace [simp]: "packages (buildWorkspace ms) = map mk_package ms"
  by (simp add: buildWorkspace_def Let_def)

lemma name_mk_package [simp]: "name (mk_package m) = PackageJson.name (snd m)"
  by (simp add: mk_package_def case_prod_beta)

lemma data_mk_package [simp]: "data (mk_package m) = snd m"
  by (simp add: mk_package_def case_prod_beta)

text \<open>The definitions to unfold when a concrete workspace is evaluated.\<close>

lemmas build_eval =
  buildWorkspace_def Map_new_def scan_package_def scan_field_def scan_dep_def push_dependent_def
  DEP_FIELDS_def mk_package_def manifest_def Let_def

lemmas topo_eval =
  topoSort_def emit_order_def in_degrees_def count_edge_def relax_def dependents_of_def Map_new_def Let_def

lemma ex_chain_graph:
  "graph (buildWorkspace ex_chain) = [(''a'', []), (''b'', [''a'']), (''c'', [''b''])]"
  by (simp add: ex_chain_def build_eval)

lemma ex_chain_topoSort:
  "topoSort (packages (buildWorkspace ex_chain)) (graph (buildWorkspace ex_chain))
     = Inr [''c'', ''b'', ''a'']"
  unfolding ex_chain_graph
  by (simp add: ex_chain_def mk_package_def manifest_def topo_eval)


section \<open>The lockstep invariant: ensureAllSameVersion\<close>

lemma Set_new_foldl_set:
  "set (foldl (\<lambda>s x. if x \<in> set s then s else s @ [x]) s xs) = set s \<union> set xs"
  by (induction xs arbitrary: s) auto

lemma Set_new_foldl_distinct:
  "distinct s \<Longrightarrow> distinct (foldl (\<lambda>s x. if x \<in> set s then s else s @ [x]) s xs)"
  by (induction xs arbitrary: s) auto

lemma set_Set_new [simp]: "set (Set_new xs) = set xs"
  by (simp add: Set_new_def Set_new_foldl_set)

lemma distinct_Set_new [simp]: "distinct (Set_new xs)"
  by (simp add: Set_new_def Set_new_foldl_distinct)

lemma Set_new_Nil [simp]: "Set_new [] = []"
  by (simp add: Set_new_def)

lemma distinct_singleton_set:
  assumes d: "distinct ds" and s: "set ds = {v}"
  shows "ds = [v]"
proof (cases ds)
  case Nil
  with s show ?thesis by simp
next
  case (Cons x xs)
  from s Cons have "x = v" and "set xs \<subseteq> {v}" by auto
  moreover from d Cons have "x \<notin> set xs" by simp
  ultimately have "xs = []" by (cases xs) auto
  with \<open>x = v\<close> Cons show ?thesis by simp
qed

lemma Set_new_same:
  assumes "xs \<noteq> []" and "\<forall>x\<in>set xs. x = v"
  shows "Set_new xs = [v]"
proof -
  from assms have "set xs = {v}" by (cases xs) auto
  then show ?thesis by (intro distinct_singleton_set) simp_all
qed

lemma Set_new_two:
  assumes "a \<in> set xs" and "b \<in> set xs" and "a \<noteq> b"
  shows "length (Set_new xs) \<noteq> 1"
proof
  assume "length (Set_new xs) = 1"
  then obtain v where "Set_new xs = [v]" by (cases "Set_new xs") auto
  then have "set xs = {v}" by (metis set_Set_new list.simps(15) empty_set)
  with assms show False by auto
qed

lemma version_op_inconsistent:
  "ensureAllSameVersion (packages (buildWorkspace ms)) = Inl e
   \<Longrightarrow> version_op options history rootPkg ms = Inl e"
  by (simp add: version_op_def Let_def)

lemma ex_versions_eval:
  "ensureAllSameVersion (packages (buildWorkspace ex_versions))
     = Inl (InconsistentVersions [''1.0.0'', ''1.1.0''])"
  by (simp add: ex_versions_def ensureAllSameVersion_def Set_new_def mk_package_def manifest_def)

text \<open>
  C8. When every record of a non-empty package list carries the version \<open>v\<close>,
  \<open>ensureAllSameVersion\<close> returns \<open>v\<close>. When two records carry different versions it fails
  with the inconsistent-versions error, whose message lists the distinct versions found
  (each once, joined by a comma and a space); and \<open>version_op\<close> stops with that error
  whenever \<open>ensureAllSameVersion\<close> fails on the workspace, so nothing is bumped.
\<close>

theorem ensureAllSameVersion_spec:
  "(pkgs \<noteq> [] \<and> (\<forall>p\<in>set pkgs. version p = v) \<longrightarrow> ensureAllSameVersion pkgs = Inr v)
   \<and> (p1 \<in> set pkgs \<and> p2 \<in> set pkgs \<and> version p1 \<noteq> version p2 \<longrightarrow>
        (\<exists>ds. ensureAllSameVersion pkgs = Inl (InconsistentVersions ds)
              \<and> distinct ds \<and> set ds = version ` set pkgs
              \<and> message (InconsistentVersions ds)
                  = ''Lockstep requires all packages have the same version. Found: ''
                    @ join '', '' ds))
   \<and> (ensureAllSameVersion (packages (buildWorkspace ms)) = Inl e
        \<longrightarrow> version_op options history rootPkg ms = Inl e)"
proof (intro conjI impI)
  assume "pkgs \<noteq> [] \<and> (\<forall>p\<in>set pkgs. version p = v)"
  then have "Set_new (map version pkgs) = [v]"
    by (intro Set_new_same) auto
  then show "ensureAllSameVersion pkgs = Inr v"
    by (simp add: ensureAllSameVersion_def)
next
  assume "p1 \<in> set pkgs \<and> p2 \<in> set pkgs \<and> version p1 \<noteq> version p2"
  then have "length (Set_new (map version pkgs)) \<noteq> 1"
    by (intro Set_new_two[of "version p1" _ "version p2"]) auto
  then have "ensureAllSameVersion pkgs = Inl (InconsistentVersions (Set_new (map version pkgs)))"
    by (simp add: ensureAllSameVersion_def)
  then show "\<exists>ds. ensureAllSameVersion pkgs = Inl (InconsistentVersions ds)
              \<and> distinct ds \<and> set ds = version ` set pkgs
              \<and> message (InconsistentVersions ds)
                  = ''Lockstep requires all packages have the same version. Found: ''
                    @ join '', '' ds"
    by simp
next
  assume "ensureAllSameVersion (packages (buildWorkspace ms)) = Inl e"
  then show "version_op options history rootPkg ms = Inl e"
    by (rule version_op_inconsistent)
qed

theorem ensureAllSameVersion_spec_witness:
  "ensureAllSameVersion
       (map mk_package [(''packages/a'', manifest ''a'' ''1.0.0'' None None),
                        (''packages/c'', manifest ''c'' ''1.0.0'' None None)]) = Inr ''1.0.0''
   \<and> ensureAllSameVersion (packages (buildWorkspace ex_versions))
        = Inl (InconsistentVersions [''1.0.0'', ''1.1.0''])
   \<and> message (InconsistentVersions [''1.0.0'', ''1.1.0''])
        = ''Lockstep requires all packages have the same version. Found: 1.0.0, 1.1.0''
   \<and> version_op \<lparr>bumpType = Minor, skipCi = False, noGitCommit = False\<rparr> NoTags None ex_versions
        = Inl (InconsistentVersions [''1.0.0'', ''1.1.0''])"
proof -
  let ?a = "(''packages/a'', manifest ''a'' ''1.0.0'' None None)"
  let ?b = "(''packages/b'', manifest ''b'' ''1.1.0'' None None)"
  let ?c = "(''packages/c'', manifest ''c'' ''1.0.0'' None None)"
  let ?o = "\<lparr>bumpType = Minor, skipCi = False, noGitCommit = False\<rparr>"
  have same: "ensureAllSameVersion (map mk_package [?a, ?c]) = Inr ''1.0.0''"
    using ensureAllSameVersion_spec[of "map mk_package [?a, ?c]" "''1.0.0''"]
    by (simp add: mk_package_def manifest_def)
  have pk: "packages (buildWorkspace ex_versions) = map mk_package [?a, ?b, ?c]"
    by (simp add: ex_versions_def)
  have hyp: "mk_package ?a \<in> set (map mk_package [?a, ?b, ?c])
             \<and> mk_package ?b \<in> set (map mk_package [?a, ?b, ?c])
             \<and> version (mk_package ?a) \<noteq> version (mk_package ?b)"
    by (simp add: mk_package_def manifest_def)
  have "\<exists>ds. ensureAllSameVersion (map mk_package [?a, ?b, ?c]) = Inl (InconsistentVersions ds)"
    using ensureAllSameVersion_spec[of "map mk_package [?a, ?b, ?c]" _
        "mk_package ?a" "mk_package ?b"] hyp
    by blast
  then have "\<exists>ds. ensureAllSameVersion (packages (buildWorkspace ex_versions))
               = Inl (InconsistentVersions ds)"
    by (simp only: pk)
  then obtain ds where
    ds: "ensureAllSameVersion (packages (buildWorkspace ex_versions)) = Inl (InconsistentVersions ds)"
    by blast
  with ex_versions_eval have eq: "ds = [''1.0.0'', ''1.1.0'']" by simp
  have "version_op ?o NoTags None ex_versions = Inl (InconsistentVersions ds)"
    using ensureAllSameVersion_spec[of _ _ _ _ ex_versions "InconsistentVersions ds" ?o NoTags None]
      ds by blast
  with same ds eq show ?thesis by simp
qed

text \<open>
  C10. On the empty package list the set of versions has size 0, not 1:
  \<open>ensureAllSameVersion\<close> fails with the inconsistent-versions error (no version is listed
  after \<open>Found:\<close>), and so does \<open>version_op\<close> on a workspace without packages, whatever its
  options: there is no no-op bump.
\<close>

theorem ensureAllSameVersion_empty:
  "ensureAllSameVersion [] = Inl (InconsistentVersions [])
   \<and> message (InconsistentVersions [])
       = ''Lockstep requires all packages have the same version. Found: ''
   \<and> version_op options history rootPkg [] = Inl (InconsistentVersions [])"
  by (simp add: ensureAllSameVersion_def version_op_def Let_def)

section \<open>The distribution tag of publish\<close>

lemma ex_chain_publish:
  "t \<noteq> [] \<Longrightarrow>
   publish_op \<lparr>access = None, dry = False, tag = t, gitPush = False\<rparr> pm br ex_chain
   = Inr \<lparr>publishOrder = [''c'', ''b'', ''a''],
          finalTag = (if t = ''latest'' then ''latest'' else br @ ''-'' @ t),
          commands =
            map (\<lambda>d. (d, publish_cmd pm ''public''
                           (if t = ''latest'' then ''latest'' else br @ ''-'' @ t) False))
                [''packages/c'', ''packages/b'', ''packages/a''],
          pushed = False\<rparr>"
  unfolding publish_op_def Let_def ex_chain_topoSort
  by (simp add: ex_chain_def mk_package_def manifest_def)

lemma publish_op_finalTag:
  assumes "publish_op options pm currentBranch ms = Inr r"
  shows "finalTag r = (if tag options = ''latest'' then ''latest''
                       else currentBranch @ ''-'' @ tag options)"
  using assms
  by (auto simp: publish_op_def Let_def split: if_splits sum.splits)

text \<open>
  C7. Whenever \<open>publish_op\<close> gets as far as publishing, its final distribution tag is the
  input tag unchanged if and only if the input tag is \<open>latest\<close>; for every other tag and
  every current branch the final tag is the branch, a hyphen and the tag. The branch is
  arbitrary: \<open>main\<close> and \<open>master\<close> are prefixed like any other.
\<close>

theorem publish_finalTag:
  "publish_op options pm currentBranch ms = Inr r \<Longrightarrow>
     (finalTag r = tag options \<longleftrightarrow> tag options = ''latest'')
     \<and> (tag options \<noteq> ''latest'' \<longrightarrow> finalTag r = currentBranch @ ''-'' @ tag options)"
proof -
  assume a: "publish_op options pm currentBranch ms = Inr r"
  have "length (currentBranch @ ''-'' @ tag options) \<noteq> length (tag options)" by simp
  then have "currentBranch @ ''-'' @ tag options \<noteq> tag options" by metis
  with publish_op_finalTag[OF a] show ?thesis by auto
qed

theorem publish_finalTag_witness:
  "(\<exists>r. publish_op \<lparr>access = None, dry = False, tag = ''alpha'', gitPush = False\<rparr>
            Npm ''main'' ex_chain = Inr r
        \<and> finalTag r = ''main-alpha'')
   \<and> (\<exists>r. publish_op \<lparr>access = None, dry = False, tag = ''next'', gitPush = False\<rparr>
            Yarn ''master'' ex_chain = Inr r
        \<and> finalTag r = ''master-next'')
   \<and> (\<exists>r. publish_op \<lparr>access = None, dry = False, tag = ''latest'', gitPush = False\<rparr>
            Pnpm ''feature-x'' ex_chain = Inr r
        \<and> finalTag r = ''latest'')"
proof -
  let ?o = "\<lambda>t. \<lparr>access = None, dry = False, tag = t, gitPush = False\<rparr>"
  obtain r1 where r1: "publish_op (?o ''alpha'') Npm ''main'' ex_chain = Inr r1"
    using ex_chain_publish[of "''alpha''" Npm "''main''"] by simp
  obtain r2 where r2: "publish_op (?o ''next'') Yarn ''master'' ex_chain = Inr r2"
    using ex_chain_publish[of "''next''" Yarn "''master''"] by simp
  obtain r3 where r3: "publish_op (?o ''latest'') Pnpm ''feature-x'' ex_chain = Inr r3"
    using ex_chain_publish[of "''latest''" Pnpm "''feature-x''"] by simp
  from publish_finalTag[OF r1] have "finalTag r1 = ''main-alpha''" by simp
  moreover from publish_finalTag[OF r2] have "finalTag r2 = ''master-next''" by simp
  moreover from publish_finalTag[OF r3] have "finalTag r3 = ''latest''" by simp
  ultimately show ?thesis using r1 r2 r3 by blast
qed

section \<open>buildWorkspace: the dependency graph\<close>

lemma foldl_concat_map:
  "foldl f a (concat (map g xs)) = foldl (\<lambda>a x. foldl f a (g x)) a xs"
  by (induction xs arbitrary: a) simp_all

lemma scan_package_edges:
  "scan_package byNm g p = foldl (record_edge byNm) g (map (\<lambda>k. (k, name p)) (dep_keys (data p)))"
proof -
  have "scan_field byNm p
          = (\<lambda>a f. foldl (scan_dep byNm p) a
                     (case get_field (data p) f of Some ds \<Rightarrow> map fst ds | None \<Rightarrow> []))"
    by (intro ext) (simp add: scan_field_def split: option.splits)
  then have "scan_package byNm g p = foldl (scan_dep byNm p) g (dep_keys (data p))"
    by (simp add: scan_package_def dep_keys_def foldl_concat_map)
  also have "scan_dep byNm p = (\<lambda>a k. record_edge byNm a (k, name p))"
    by (intro ext) (simp add: record_edge_def scan_dep_def)
  also have "foldl (\<lambda>a k. record_edge byNm a (k, name p)) g (dep_keys (data p))
             = foldl (record_edge byNm) g (map (\<lambda>k. (k, name p)) (dep_keys (data p)))"
    by (simp add: foldl_map)
  finally show ?thesis .
qed

lemma foldl_scan_package_edges:
  "foldl (scan_package byNm) g pkgs = foldl (record_edge byNm) g (dependency_edges pkgs)"
proof -
  have "scan_package byNm
          = (\<lambda>a p. foldl (record_edge byNm) a (map (\<lambda>k. (k, name p)) (dep_keys (data p))))"
    by (intro ext) (rule scan_package_edges)
  then show ?thesis by (simp add: dependency_edges_def foldl_concat_map)
qed

lemma map_of_record_edge:
  "map_of (record_edge byNm g (k, n)) d =
     (if Map_has byNm k \<and> k = d then map_option (\<lambda>vs. vs @ [n]) (map_of g d) else map_of g d)"
  by (auto simp: record_edge_def push_dependent_def update_conv' split: option.splits)

lemma map_of_foldl_record_edge:
  "map_of (foldl (record_edge byNm) g es) d =
     map_option (\<lambda>vs. vs @ map snd (filter (\<lambda>(k, n). k = d \<and> Map_has byNm k) es)) (map_of g d)"
proof (induction es arbitrary: g)
  case Nil
  then show ?case by (simp add: option.map_ident)
next
  case (Cons e es)
  obtain k n where e: "e = (k, n)" by (cases e)
  show ?case
    by (cases "map_of g d") (auto simp: Cons.IH e map_of_record_edge)
qed

lemma map_of_Map_new_aux:
  "map_of (foldl (\<lambda>m (k, v). Map_set m k v) m0 kvs) k \<noteq> None
     \<longleftrightarrow> map_of m0 k \<noteq> None \<or> k \<in> fst ` set kvs"
  by (induction kvs arbitrary: m0) (auto simp: update_conv' split: prod.splits)

lemma dom_Map_new: "dom (map_of (Map_new kvs)) = fst ` set kvs"
  using map_of_Map_new_aux[of "[]" kvs] by (auto simp: Map_new_def dom_def)

lemma byName_dom: "dom (map_of (byName (buildWorkspace ms))) = member_names ms"
  by (simp add: buildWorkspace_def Let_def dom_Map_new member_names_def image_image comp_def)

lemma map_of_graph0:
  "map_of (foldl (\<lambda>g p. Map_set g (name p) []) g0 pkgs) d =
     (if d \<in> name ` set pkgs then Some [] else map_of g0 d)"
  by (induction pkgs arbitrary: g0) (auto simp: update_conv')

lemma filter_key_const:
  "map snd (filter (\<lambda>(k, n). k = d) (map (\<lambda>k. (k, c)) ks))
     = concat (map (\<lambda>k. if k = d then [c] else []) ks)"
  by (induction ks) auto

lemma dependents_edges:
  "map snd (filter (\<lambda>(k, n). k = d) (dependency_edges (map mk_package ms))) = dependents ms d"
  by (induction ms)
     (simp_all add: dependency_edges_def dependents_def filter_key_const)

lemma graph_lookup:
  "Map_get (graph (buildWorkspace ms)) d
     = (if d \<in> member_names ms then Some (dependents ms d) else None)"
proof -
  let ?pkgs = "map mk_package ms"
  let ?byNm = "Map_new (map (\<lambda>p. (name p, p)) ?pkgs)"
  let ?g0 = "foldl (\<lambda>g p. Map_set g (name p) []) [] ?pkgs"
  have g: "graph (buildWorkspace ms) = foldl (record_edge ?byNm) ?g0 (dependency_edges ?pkgs)"
    by (simp add: buildWorkspace_def Let_def foldl_scan_package_edges)
  have n: "name ` set ?pkgs = member_names ms"
    by (simp add: member_names_def image_image)
  have g0: "map_of ?g0 d = (if d \<in> member_names ms then Some [] else None)"
    by (simp add: map_of_graph0 n del: set_map)
  have "byName (buildWorkspace ms) = ?byNm" by (simp add: buildWorkspace_def Let_def)
  with byName_dom[of ms] have h: "Map_has ?byNm d \<longleftrightarrow> d \<in> member_names ms"
    by (simp only: domIff[symmetric])
  show ?thesis
  proof (cases "d \<in> member_names ms")
    case False
    then show ?thesis by (simp add: g map_of_foldl_record_edge g0)
  next
    case True
    with h have "filter (\<lambda>(k, n). k = d \<and> Map_has ?byNm k) (dependency_edges ?pkgs)
                 = filter (\<lambda>(k, n). k = d) (dependency_edges ?pkgs)"
      by (intro filter_cong) auto
    with True show ?thesis
      by (simp add: g map_of_foldl_record_edge g0 dependents_edges)
  qed
qed

lemma dom_record_edge: "dom (map_of (record_edge byNm g e)) = dom (map_of g)"
  by (cases e) (auto simp: map_of_record_edge split: if_splits)

lemma graph_has_names:
  assumes "Map_has (byName (buildWorkspace ms)) depName"
  shows "Map_has (foldl (record_edge (byName (buildWorkspace ms)))
                    (foldl (\<lambda>g p. Map_set g (name p) []) [] (packages (buildWorkspace ms)))
                    es) depName"
proof -
  from assms have "depName \<in> dom (map_of (byName (buildWorkspace ms)))"
    by (simp only: domIff) simp
  then have "depName \<in> member_names ms" by (simp only: byName_dom)
  then show ?thesis
    by (simp add: map_of_foldl_record_edge map_of_graph0 member_names_def image_image)
qed

lemma graph_keys_distinct: "distinct (map fst (graph (buildWorkspace ms)))"
proof -
  have a: "\<And>g0 pkgs. distinct (map fst g0) \<Longrightarrow>
        distinct (map fst (foldl (\<lambda>g p. Map_set g (name p) []) g0 pkgs))"
    subgoal for g0 pkgs by (induction pkgs arbitrary: g0) (simp_all add: distinct_update)
    done
  have b: "\<And>byNm g es. distinct (map fst g) \<Longrightarrow> distinct (map fst (foldl (record_edge byNm) g es))"
    subgoal for byNm g es
      by (induction es arbitrary: g)
         (auto simp: record_edge_def push_dependent_def distinct_update split: option.splits)
    done
  show ?thesis
    by (simp add: buildWorkspace_def Let_def foldl_scan_package_edges a b)
qed

lemma ex_self_graph: "graph (buildWorkspace ex_self) = [(''a'', [''a''])]"
  by (simp add: ex_self_def build_eval)

lemma ex_nonstring_graph: "graph (buildWorkspace ex_nonstring) = [(''a'', []), (''b'', [''a''])]"
  by (simp add: ex_nonstring_def build_eval)

text \<open>
  C5, as stated, fails: \<open>buildWorkspace\<close> reads only the keys of the dependency fields, so
  a record that lists its own name gets the edge from itself to itself (and \<open>topoSort\<close>
  then reports a cycle), and a dependency on a member is recorded also when its range is
  not a string.
\<close>

theorem buildWorkspace_graph_counterexample:
  "''a'' \<in> set (dependents_of (graph (buildWorkspace ex_self)) ''a'')
   \<and> topoSort (packages (buildWorkspace ex_self)) (graph (buildWorkspace ex_self)) = Inl CycleDetected
   \<and> ''a'' \<in> set (dependents_of (graph (buildWorkspace ex_nonstring)) ''b'')"
  unfolding ex_self_graph ex_nonstring_graph
  by (simp add: ex_self_def mk_package_def manifest_def topo_eval)

text \<open>
  C5, amended. The graph has an entry for exactly the names of the workspace members, and
  the entry of a member \<open>d\<close> lists, in workspace order, the name of record \<open>A\<close> once for every
  key \<open>d\<close> among the dependency fields of \<open>A\<close> (the four fields in the order of
  \<open>DEP_FIELDS\<close>): whatever the range, and also when \<open>A\<close> is the member \<open>d\<close> itself. A key that
  names no member adds nothing. \<open>buildWorkspace\<close> has no failing path: its one partial
  step, the lookup before \<^verbatim>\<open>push\<close>, always finds the entry (\<open>graph_has_names\<close>).
\<close>

theorem buildWorkspace_graph:
  "Map_get (graph (buildWorkspace ms)) d
     = (if d \<in> member_names ms then Some (dependents ms d) else None)
   \<and> dependents ms d = [PackageJson.name (snd A). A \<leftarrow> ms, k \<leftarrow> dep_keys (snd A), k = d]
   \<and> dep_keys pkg =
       concat (map (\<lambda>f. case get_field pkg f of Some ds \<Rightarrow> map fst ds | None \<Rightarrow> [])
                   [Dependencies, DevDependencies, PeerDependencies, OptionalDependencies])"
  by (simp add: graph_lookup dependents_def dep_keys_def DEP_FIELDS_def)

theorem buildWorkspace_graph_witness:
  "Map_get (graph (buildWorkspace ex_self)) ''a'' = Some [''a'']
   \<and> Map_get (graph (buildWorkspace ex_nonstring)) ''b'' = Some [''a'']
   \<and> Map_get (graph (buildWorkspace ex_chain)) ''lodash'' = None"
proof -
  have "member_names ex_self = {''a''}" "dependents ex_self ''a'' = [''a'']"
    by (simp_all add: member_names_def dependents_def dep_keys_def DEP_FIELDS_def ex_self_def manifest_def)
  moreover have "member_names ex_nonstring = {''a'', ''b''}" "dependents ex_nonstring ''b'' = [''a'']"
    by (auto simp: member_names_def dependents_def dep_keys_def DEP_FIELDS_def ex_nonstring_def manifest_def)
  moreover have "member_names ex_chain = {''a'', ''b'', ''c''}"
    by (auto simp: member_names_def ex_chain_def manifest_def)
  ultimately show ?thesis
    using buildWorkspace_graph[of ex_self "''a''"] buildWorkspace_graph[of ex_nonstring "''b''"]
      buildWorkspace_graph[of ex_chain "''lodash''"]
    by simp
qed

section \<open>The matcher, read declaratively\<close>

text \<open>
  What a match leaves of the input does not depend on the captures collected so far, and
  is composed from the parts of the pattern as the usual reading of regular expressions
  says: a sequence chains, an alternative and an option add up, a group changes nothing,
  and \<open>+\<close> over a class of characters takes any non-empty run of the class.
\<close>

lemma snd_set_concat_map:
  "snd ` set (concat (map f xs)) = (\<Union>x\<in>set xs. snd ` set (f x))"
  by (simp add: image_UN)

lemma snd_set_guarded:
  "snd ` set ((if c then A else []) @ [x]) = (if c then snd ` set A else {}) \<union> {snd x}"
  by simp

lemma bt_Plus_unfold:
  "snd ` set (bt (Plus r) (caps, s))
   = (\<Union>x\<in>set (bt r (caps, s)).
        (if length (snd x) < length s then snd ` set (bt (Plus r) x) else {}) \<union> {snd x})"
  by (subst bt.simps(11)) (simp only: snd_set_concat_map snd_set_guarded snd_conv)

lemma rests_Plus_caps:
  assumes r: "\<And>caps s. snd ` set (bt r (caps, s)) = rests r s"
  shows "snd ` set (bt (Plus r) (caps, s)) = rests (Plus r) s"
proof (induction "length s" arbitrary: s caps rule: less_induct)
  case less
  define F where "F t = (if length t < length s then rests (Plus r) t else {}) \<union> {t}" for t
  have "snd ` set (bt (Plus r) (c, s)) = (\<Union>t\<in>rests r s. F t)" for c
  proof -
    have "(if length (snd x) < length s then snd ` set (bt (Plus r) x) else {}) \<union> {snd x}
          = F (snd x)" for x
      using less [of "snd x" "fst x"] by (simp add: F_def)
    then have "snd ` set (bt (Plus r) (c, s)) = (\<Union>x\<in>set (bt r (c, s)). F (snd x))"
      by (simp only: bt_Plus_unfold)
    also have "\<dots> = (\<Union>t\<in>snd ` set (bt r (c, s)). F t)"
      by (simp only: image_image)
    finally show ?thesis by (simp only: r)
  qed
  then show ?case by (simp add: rests_def)
qed

lemma rests_caps: "snd ` set (bt r (caps, s)) = rests r s"
proof (induction r arbitrary: caps s)
  case Eps
  show ?case by (simp add: rests_def)
next
  case (Chr c)
  show ?case by (cases s) (auto simp: rests_def)
next
  case Dot
  show ?case by (cases s) (auto simp: rests_def)
next
  case Digit
  show ?case by (cases s) (auto simp: rests_def)
next
  case (Seq a b)
  have "snd ` set (bt (Seq a b) (c, s)) = (\<Union>t\<in>rests a s. rests b t)" for c
  proof -
    have "snd ` set (bt (Seq a b) (c, s)) = (\<Union>x\<in>set (bt a (c, s)). snd ` set (bt b x))"
      by (simp add: image_UN)
    also have "\<dots> = (\<Union>x\<in>set (bt a (c, s)). rests b (snd x))"
      using Seq(2) [of "fst x" "snd x" for x] by simp
    also have "\<dots> = (\<Union>t\<in>snd ` set (bt a (c, s)). rests b t)"
      by (simp only: image_image)
    finally show ?thesis by (simp only: Seq(1))
  qed
  then show ?case by (simp add: rests_def)
next
  case (Alt a b)
  have "snd ` set (bt (Alt a b) (c, s)) = rests a s \<union> rests b s" for c
    by (simp add: image_Un Alt)
  then show ?case by (simp add: rests_def)
next
  case (Opt a)
  have "snd ` set (bt (Opt a) (c, s)) = insert s (rests a s)" for c
    by (simp add: image_Un Opt)
  then show ?case by (simp add: rests_def)
next
  case (Plus a)
  then show ?case by (rule rests_Plus_caps)
next
  case (Grp a)
  have "snd ` set (bt (Grp a) (c, s)) = rests a s" for c
  proof -
    have "snd ` set (bt (Grp a) (c, s)) = snd ` set (bt a (c, s))"
      by (force simp: image_iff split: prod.splits)
    then show ?thesis by (simp only: Grp)
  qed
  then show ?case by (simp add: rests_def)
next
  case Eoi
  show ?case by (auto simp: rests_def)
qed

lemma rests_Eps: "rests Eps s = {s}"
  by (simp add: rests_def)

lemma rests_Chr: "rests (Chr c) s = {t. s = c # t}"
  by (cases s) (auto simp: rests_def)

lemma rests_Dot: "rests Dot s = {t. \<exists>x. s = x # t \<and> \<not> is_line_terminator x}"
  by (cases s) (auto simp: rests_def)

lemma rests_Digit: "rests Digit s = {t. \<exists>x. s = x # t \<and> is_digit x}"
  by (cases s) (auto simp: rests_def)

lemma rests_Eoi: "rests Eoi s = (if s = [] then {[]} else {})"
  by (simp add: rests_def)

lemma rests_Seq: "rests (Seq a b) s = (\<Union>t\<in>rests a s. rests b t)"
proof -
  have "rests (Seq a b) s = (\<Union>x\<in>set (bt a ([], s)). snd ` set (bt b x))"
    by (simp add: rests_def image_UN)
  also have "\<dots> = (\<Union>x\<in>set (bt a ([], s)). rests b (snd x))"
    using rests_caps [of b "fst x" "snd x" for x] by simp
  also have "\<dots> = (\<Union>t\<in>snd ` set (bt a ([], s)). rests b t)"
    by (simp only: image_image)
  finally show ?thesis by (simp only: rests_def)
qed

lemma rests_Alt: "rests (Alt a b) s = rests a s \<union> rests b s"
  by (simp add: rests_def image_Un)

lemma rests_Opt: "rests (Opt a) s = insert s (rests a s)"
  by (simp add: rests_def image_Un)

lemma rests_Grp: "rests (Grp a) s = rests a s"
  using rests_caps [of "Grp a" "[]" s] rests_caps [of a "[]" s]
  by (force simp: rests_def image_iff split: prod.splits)

lemma rests_Plus:
  "rests (Plus r) s
   = (\<Union>t\<in>rests r s. (if length t < length s then rests (Plus r) t else {}) \<union> {t})"
proof -
  have "(if length (snd x) < length s then snd ` set (bt (Plus r) x) else {}) \<union> {snd x}
        = (if length (snd x) < length s then rests (Plus r) (snd x) else {}) \<union> {snd x}" for x
    using rests_caps [of "Plus r" "fst x" "snd x"] by simp
  then have "rests (Plus r) s
        = (\<Union>x\<in>set (bt r ([], s)).
             (if length (snd x) < length s then rests (Plus r) (snd x) else {}) \<union> {snd x})"
    unfolding rests_def [of "Plus r" s] by (simp only: bt_Plus_unfold)
  also have "\<dots> = (\<Union>t\<in>snd ` set (bt r ([], s)).
                      (if length t < length s then rests (Plus r) t else {}) \<union> {t})"
    by (simp only: image_image)
  finally show ?thesis by (simp only: rests_def)
qed

lemma rests_lit: "rests (lit w) s = {t. s = w @ t}"
  by (induction w arbitrary: s) (auto simp: rests_Eps rests_Seq rests_Chr)

lemma rests_Plus_class:
  assumes r: "\<And>s. rests r s = {t. \<exists>x. s = x # t \<and> P x}"
  shows "rests (Plus r) s = {t. \<exists>p. s = p @ t \<and> p \<noteq> [] \<and> list_all P p}"
proof (induction s)
  case Nil
  show ?case by (subst rests_Plus) (simp add: r)
next
  case (Cons x xs)
  show ?case
  proof (cases "P x")
    case False
    have "\<And>p t. x # xs = p @ t \<Longrightarrow> p \<noteq> [] \<Longrightarrow> \<not> list_all P p"
      using False by (case_tac p) auto
    then have "{t. \<exists>p. x # xs = p @ t \<and> p \<noteq> [] \<and> list_all P p} = {}" by blast
    with False show ?thesis by (subst rests_Plus) (simp add: r)
  next
    case True
    then have u: "rests (Plus r) (x # xs) = insert xs (rests (Plus r) xs)"
      by (subst rests_Plus) (simp add: r)
    have "(\<exists>p. x # xs = p @ t \<and> p \<noteq> [] \<and> list_all P p)
              \<longleftrightarrow> t = xs \<or> (\<exists>p. xs = p @ t \<and> p \<noteq> [] \<and> list_all P p)" for t
    proof
      assume "\<exists>p. x # xs = p @ t \<and> p \<noteq> [] \<and> list_all P p"
      then obtain p where p: "x # xs = p @ t" "p \<noteq> []" "list_all P p" by blast
      then obtain p' where p': "p = x # p'" by (cases p) auto
      with p show "t = xs \<or> (\<exists>p. xs = p @ t \<and> p \<noteq> [] \<and> list_all P p)"
        by (cases p') auto
    next
      assume "t = xs \<or> (\<exists>p. xs = p @ t \<and> p \<noteq> [] \<and> list_all P p)"
      then show "\<exists>p. x # xs = p @ t \<and> p \<noteq> [] \<and> list_all P p"
      proof
        assume "t = xs"
        with True have "x # xs = [x] @ t \<and> [x] \<noteq> [] \<and> list_all P [x]" by simp
        then show ?thesis by blast
      next
        assume "\<exists>p. xs = p @ t \<and> p \<noteq> [] \<and> list_all P p"
        then obtain p where "xs = p @ t" "p \<noteq> []" "list_all P p" by blast
        with True have "x # xs = (x # p) @ t \<and> x # p \<noteq> [] \<and> list_all P (x # p)" by simp
        then show ?thesis by blast
      qed
    qed
    then show ?thesis unfolding u Cons by blast
  qed
qed

lemma rx_exec_rests: "rx_exec r s \<noteq> None \<longleftrightarrow> rests r s \<noteq> {}"
  by (simp add: rx_exec_def rests_def split: list.splits prod.splits)

lemma rests_scope_colon:
  "rests (Seq scope_rx (Chr CHR '':'')) t \<noteq> {} \<longleftrightarrow> conventional [] t"
proof -
  let ?P = "\<lambda>c. \<not> is_line_terminator c"
  have dots: "rests (Plus Dot) u = {t. \<exists>p. u = p @ t \<and> p \<noteq> [] \<and> list_all ?P p}" for u
    by (rule rests_Plus_class) (simp add: rests_Dot)
  have "rests scope_rx t
        = insert t {r. \<exists>p. t = ''('' @ p @ '')'' @ r \<and> p \<noteq> [] \<and> list_all ?P p}"
    by (auto simp: scope_rx_def rests_Opt rests_Grp rests_Seq rests_Chr dots)
  then have "rests (Seq scope_rx (Chr CHR '':'')) t
        = {r. t = '':'' @ r}
          \<union> {r. \<exists>p. t = ''('' @ p @ ''):'' @ r \<and> p \<noteq> [] \<and> list_all ?P p}"
    by (auto simp: rests_Seq rests_Chr)
  then show ?thesis
    by (auto simp: conventional_def)
qed


section \<open>semverBump\<close>

lemma bt_Plus_class:
  assumes r0: "\<And>caps. bt r (caps, []) = []"
    and r1: "\<And>caps x xs. bt r (caps, x # xs) = (if P x then [(caps, xs)] else [])"
    and F: "\<And>caps' t. t \<noteq> [] \<Longrightarrow> P (hd t) \<Longrightarrow> F (caps', t) = []"
  shows "concat (map F (bt (Plus r) (caps, s)))
         = (if s \<noteq> [] \<and> P (hd s) then F (caps, dropWhile P s) else [])"
proof (induction s)
  case Nil
  show ?case by (subst bt.simps(11)) (simp add: r0)
next
  case (Cons x xs)
  show ?case
  proof (cases "P x")
    case False
    then show ?thesis by (subst bt.simps(11)) (simp add: r1)
  next
    case True
    then have u: "bt (Plus r) (caps, x # xs) = bt (Plus r) (caps, xs) @ [(caps, xs)]"
      by (subst bt.simps(11)) (simp add: r1)
    show ?thesis
    proof (cases "xs \<noteq> [] \<and> P (hd xs)")
      case True
      with F have "F (caps, xs) = []" by simp
      with Cons True \<open>P x\<close> show ?thesis by (simp add: u)
    next
      case False
      then have "dropWhile P xs = xs" by (cases xs) auto
      with Cons False \<open>P x\<close> show ?thesis by (simp add: u)
    qed
  qed
qed

lemma take_length_dropWhile:
  "take (length s - length (dropWhile P s)) s = takeWhile P s"
proof -
  have "length s - length (dropWhile P s) = length (takeWhile P s)"
    by (metis add_diff_cancel_right' length_append takeWhile_dropWhile_id)
  then show ?thesis by (metis takeWhile_eq_take)
qed

lemma bt_Grp_Plus_class:
  assumes r0: "\<And>caps. bt r (caps, []) = []"
    and r1: "\<And>caps x xs. bt r (caps, x # xs) = (if P x then [(caps, xs)] else [])"
    and R: "\<And>caps' t. t \<noteq> [] \<Longrightarrow> P (hd t) \<Longrightarrow> bt R (caps', t) = []"
  shows "bt (Seq (Grp (Plus r)) R) (caps, s)
         = (if s \<noteq> [] \<and> P (hd s)
            then bt R (caps @ [takeWhile P s], dropWhile P s) else [])"
proof -
  let ?g = "\<lambda>(caps', s'). (caps' @ [take (length s - length s') s], s')"
  have "bt (Seq (Grp (Plus r)) R) (caps, s)
          = concat (map (\<lambda>st. bt R (?g st)) (bt (Plus r) (caps, s)))"
    by (simp add: comp_def)
  also have "\<dots> = (if s \<noteq> [] \<and> P (hd s)
                    then bt R (?g (caps, dropWhile P s)) else [])"
    by (rule bt_Plus_class[OF r0 r1]) (simp add: R)
  finally show ?thesis by (simp add: take_length_dropWhile)
qed

lemma bt_Chr_Seq:
  "bt (Seq (Chr c) R) (caps, t) = (case t of [] \<Rightarrow> [] | x # xs \<Rightarrow> if x = c then bt R (caps, xs) else [])"
  by (cases t) auto

lemma bt_semver_tail:
  "bt semver_tail (caps, t)
   = (if t = [] then [(caps, [])] else if pre_release t then [(caps @ [t], [])] else [])"
proof (cases t)
  case Nil
  then show ?thesis by (simp add: semver_tail_def)
next
  case (Cons c u)
  let ?P = "\<lambda>c. \<not> is_line_terminator c"
  let ?F = "\<lambda>st. bt Eoi (case st of (caps', s') \<Rightarrow> (caps' @ [take (length t - length s') t], s'))"
  show ?thesis
  proof (cases "c = CHR ''-''")
    case False
    with Cons show ?thesis by (simp add: semver_tail_def pre_release_def)
  next
    case True
    have "bt semver_tail (caps, t) = concat (map ?F (bt (Plus Dot) (caps, u)))"
      using Cons True by (simp add: semver_tail_def comp_def)
    also have "\<dots> = (if u \<noteq> [] \<and> ?P (hd u) then ?F (caps, dropWhile ?P u) else [])"
      by (rule bt_Plus_class) auto
    also have "\<dots> = (if pre_release t then [(caps @ [t], [])] else [])"
    proof (cases "u \<noteq> [] \<and> list_all ?P u")
      case True
      then have d: "dropWhile ?P u = []" by (simp add: list_all_iff)
      from True have h: "?P (hd u)" by (cases u) auto
      from True Cons \<open>c = CHR ''-''\<close> have p: "pre_release t" by (simp add: pre_release_def)
      from True h p Cons show ?thesis by (simp add: d)
    next
      case False
      then have "u = [] \<or> dropWhile ?P u \<noteq> []" by (simp add: list_all_iff)
      moreover from False Cons \<open>c = CHR ''-''\<close> have "\<not> pre_release t" by (auto simp: pre_release_def)
      ultimately show ?thesis by auto
    qed
    finally show ?thesis using Cons by simp
  qed
qed


lemma semver_rx_tail:
  "semver_rx =
     Seq (Grp (Plus Digit)) (Seq (Chr CHR ''.'')
    (Seq (Grp (Plus Digit)) (Seq (Chr CHR ''.'')
    (Seq (Grp (Plus Digit)) semver_tail))))"
  by (simp add: semver_rx_def semver_tail_def)

lemma takeWhile_nonempty: "takeWhile P s \<noteq> [] \<longleftrightarrow> s \<noteq> [] \<and> P (hd s)"
  by (cases s) auto

lemma not_digit_dot [simp]: "\<not> is_digit CHR ''.''" and not_digit_minus [simp]: "\<not> is_digit CHR ''-''"
  by (simp_all add: is_digit_def)

lemma bt_digits_dot:
  "bt (Seq (Grp (Plus Digit)) (Seq (Chr CHR ''.'') R)) (caps, s) =
     (if takeWhile is_digit s \<noteq> []
      then (case dropWhile is_digit s of
              [] \<Rightarrow> []
            | x # xs \<Rightarrow> if x = CHR ''.'' then bt R (caps @ [takeWhile is_digit s], xs) else [])
      else [])"
proof -
  have "bt (Seq (Grp (Plus Digit)) (Seq (Chr CHR ''.'') R)) (caps, s)
        = (if s \<noteq> [] \<and> is_digit (hd s)
           then bt (Seq (Chr CHR ''.'') R) (caps @ [takeWhile is_digit s], dropWhile is_digit s)
           else [])"
  proof (rule bt_Grp_Plus_class)
    fix caps' :: "string list" and t :: string
    assume "t \<noteq> []" and "is_digit (hd t)"
    then show "bt (Seq (Chr CHR ''.'') R) (caps', t) = []"
      by (cases t) auto
  qed simp_all
  then show ?thesis
    by (simp add: takeWhile_nonempty bt_Chr_Seq del: bt.simps(1-10,12,13))
qed

lemma pre_release_hd: "pre_release t \<Longrightarrow> hd t = CHR ''-''"
  by (auto simp: pre_release_def)

lemma bt_digits_tail:
  "bt (Seq (Grp (Plus Digit)) semver_tail) (caps, s) =
     (if takeWhile is_digit s \<noteq> []
      then bt semver_tail (caps @ [takeWhile is_digit s], dropWhile is_digit s)
      else [])"
proof -
  have "bt (Seq (Grp (Plus Digit)) semver_tail) (caps, s)
        = (if s \<noteq> [] \<and> is_digit (hd s)
           then bt semver_tail (caps @ [takeWhile is_digit s], dropWhile is_digit s)
           else [])"
  proof (rule bt_Grp_Plus_class)
    fix caps' :: "string list" and t :: string
    assume "t \<noteq> []" and "is_digit (hd t)"
    then show "bt semver_tail (caps', t) = []"
      using pre_release_hd[of t] by (auto simp: bt_semver_tail)
  qed simp_all
  then show ?thesis by (simp add: takeWhile_nonempty)
qed

lemma span_digits:
  assumes "list_all is_digit ds" and "r = [] \<or> \<not> is_digit (hd r)"
  shows "takeWhile is_digit (ds @ r) = ds" and "dropWhile is_digit (ds @ r) = r"
proof -
  from assms(2) have t: "takeWhile is_digit r = []" and d: "dropWhile is_digit r = r"
    by (cases r; auto)+
  from assms(1) have a: "\<And>x. x \<in> set ds \<Longrightarrow> is_digit x" by (simp add: list_all_iff)
  show "takeWhile is_digit (ds @ r) = ds" by (simp add: a t)
  show "dropWhile is_digit (ds @ r) = r" by (simp add: a d)
qed

lemma semver_match:
  assumes "semver_shape v MA MI PA suf"
  shows "rx_exec semver_rx v = Some ([MA, MI, PA] @ (if suf = [] then [] else [suf]))"
proof -
  from assms have v: "v = MA @ CHR ''.'' # MI @ CHR ''.'' # PA @ suf"
    and MA: "MA \<noteq> []" "list_all is_digit MA" and MI: "MI \<noteq> []" "list_all is_digit MI"
    and PA: "PA \<noteq> []" "list_all is_digit PA" and suf: "suf = [] \<or> pre_release suf"
    by (simp_all add: semver_shape_def digits_def)
  from suf have s: "suf = [] \<or> \<not> is_digit (hd suf)" using pre_release_hd[of suf] by auto
  have 1: "takeWhile is_digit v = MA" "dropWhile is_digit v = CHR ''.'' # MI @ CHR ''.'' # PA @ suf"
    unfolding v by (rule span_digits[OF MA(2)]; simp)+
  have 2: "takeWhile is_digit (MI @ CHR ''.'' # PA @ suf) = MI"
    "dropWhile is_digit (MI @ CHR ''.'' # PA @ suf) = CHR ''.'' # PA @ suf"
    by (rule span_digits[OF MI(2)]; simp)+
  have 3: "takeWhile is_digit (PA @ suf) = PA" "dropWhile is_digit (PA @ suf) = suf"
    by (rule span_digits[OF PA(2) s])+
  have "bt semver_rx ([], v)
        = (if suf = [] then [([MA, MI, PA], [])] else [([MA, MI, PA, suf], [])])"
    using MA(1) MI(1) PA(1) suf
    by (auto simp: semver_rx_tail bt_digits_dot bt_digits_tail bt_semver_tail 1 2 3
             simp del: bt.simps(1-10,12,13))
  then show ?thesis by (simp add: rx_exec_def)
qed

lemma semver_match_shape:
  assumes "rx_exec semver_rx v = Some m"
  shows "\<exists>MA MI PA suf. semver_shape v MA MI PA suf"
proof -
  let ?d = is_digit
  from assms have ne: "bt semver_rx ([], v) \<noteq> []"
    by (auto simp: rx_exec_def split: list.splits)
  define MA where "MA = takeWhile ?d v"
  define r1 where "r1 = dropWhile ?d v"
  from ne have MA: "MA \<noteq> []"
    by (auto simp: semver_rx_tail bt_digits_dot MA_def simp del: bt.simps(1-10,12,13) split: if_splits)
  from ne obtain r2 where r1: "r1 = CHR ''.'' # r2"
    by (auto simp: semver_rx_tail bt_digits_dot r1_def simp del: bt.simps(1-10,12,13) split: if_splits list.splits)
  define MI where "MI = takeWhile ?d r2"
  define r3 where "r3 = dropWhile ?d r2"
  let ?R2 = "Seq (Grp (Plus Digit)) (Seq (Chr CHR ''.'') (Seq (Grp (Plus Digit)) semver_tail))"
  from ne MA r1 have ne2: "bt ?R2 ([MA], r2) \<noteq> []"
    by (simp add: semver_rx_tail bt_digits_dot[of _ "[]" v] MA_def[symmetric] r1_def[symmetric]
             del: bt.simps(1-10,12,13))
  then have MI: "MI \<noteq> []"
    by (auto simp: bt_digits_dot MI_def simp del: bt.simps(1-10,12,13) split: if_splits)
  from ne2 obtain r4 where r3: "r3 = CHR ''.'' # r4"
    by (auto simp: bt_digits_dot r3_def simp del: bt.simps(1-10,12,13) split: if_splits list.splits)
  define PA where "PA = takeWhile ?d r4"
  define suf where "suf = dropWhile ?d r4"
  from ne2 MI r3 have ne3: "bt (Seq (Grp (Plus Digit)) semver_tail) ([MA, MI], r4) \<noteq> []"
    by (simp add: bt_digits_dot[of _ "[MA]" r2] MI_def[symmetric] r3_def[symmetric]
             del: bt.simps(1-10,12,13))
  then have PA: "PA \<noteq> []" and t: "bt semver_tail ([MA, MI, PA], suf) \<noteq> []"
    by (auto simp: bt_digits_tail PA_def suf_def simp del: bt.simps(1-10,12,13) split: if_splits)
  from t have suf: "suf = [] \<or> pre_release suf"
    by (auto simp: bt_semver_tail split: if_splits)
  have "v = MA @ r1" "r2 = MI @ r3" "r4 = PA @ suf"
    by (simp_all add: MA_def r1_def MI_def r3_def PA_def suf_def)
  with r1 r3 have "v = MA @ ''.'' @ MI @ ''.'' @ PA @ suf" by simp
  moreover have "list_all ?d MA" "list_all ?d MI" "list_all ?d PA"
    by (auto simp: MA_def MI_def PA_def list_all_iff dest: set_takeWhileD)
  ultimately have "semver_shape v MA MI PA suf"
    using MA MI PA suf by (simp add: semver_shape_def digits_def)
  then show ?thesis by blast
qed


lemma semver_captures:
  assumes "rx_exec semver_rx v = Some m"
  shows "3 \<le> length m"
proof -
  from semver_match_shape[OF assms] obtain MA MI PA suf where "semver_shape v MA MI PA suf"
    by blast
  from semver_match[OF this] assms show ?thesis by auto
qed



lemma digit_value_digit_char: "d < 10 \<Longrightarrow> digit_value (digit_char d) = d"
proof -
  assume "d < 10"
  then have "d \<in> {0, 1, 2, 3, 4, 5, 6, 7, 8, 9}" by auto
  then show ?thesis by (auto simp: digit_value_def digit_char_def)
qed

lemma to_number_snoc: "to_number (ds @ [c]) = 10 * to_number ds + digit_value c"
  by (simp add: to_number_def)

lemma to_number_to_string: "to_number (to_string n) = n"
proof (induction n rule: to_string.induct)
  case (1 n)
  show ?case
  proof (cases "n < 10")
    case True
    then show ?thesis
      by (subst to_string.simps) (simp add: to_number_def digit_value_digit_char)
  next
    case False
    with 1 have "to_number (to_string (n div 10)) = n div 10" by simp
    with False show ?thesis
      by (subst to_string.simps) (simp add: to_number_snoc digit_value_digit_char)
  qed
qed

lemma semverBump_match:
  assumes "semver_shape v MA MI PA suf"
  shows "semverBump v kind =
           Inr (case kind of
                  Major \<Rightarrow> to_string (to_number MA + 1) @ ''.0.0''
                | Minor \<Rightarrow> to_string (to_number MA) @ ''.'' @ to_string (to_number MI + 1) @ ''.0''
                | Patch \<Rightarrow> to_string (to_number MA) @ ''.'' @ to_string (to_number MI) @ ''.''
                             @ to_string (to_number PA + 1)
                | Auto \<Rightarrow> to_string (to_number MA) @ ''.'' @ to_string (to_number MI) @ ''.''
                             @ to_string (to_number PA))"
proof -
  have z: "to_string 0 = ''0''" by (subst to_string.simps) (simp add: digit_char_def)
  show ?thesis
    by (cases kind) (simp_all add: semverBump_def semver_match[OF assms] Let_def z)
qed




lemmas semver_eval =
  semver_shape_def digits_def pre_release_def is_digit_def is_line_terminator_def to_number_def
  digit_value_def digit_char_def to_string.simps



section \<open>determineVersionType\<close>

lemma startsWith_iff: "startsWith s p \<longleftrightarrow> (\<exists>post. s = p @ post)"
  by (induction s p rule: startsWith.induct) auto

lemma str_includes_iff: "str_includes s sub \<longleftrightarrow> (\<exists>pre post. s = pre @ sub @ post)"
proof (induction s)
  case Nil
  then show ?case by auto
next
  case (Cons x xs)
  show ?case
  proof
    assume "str_includes (x # xs) sub"
    then consider "startsWith (x # xs) sub" | "str_includes xs sub" by auto
    then show "\<exists>pre post. x # xs = pre @ sub @ post"
    proof cases
      case 1
      then obtain post where "x # xs = sub @ post" by (auto simp: startsWith_iff)
      then have "x # xs = [] @ sub @ post" by simp
      then show ?thesis by blast
    next
      case 2
      with Cons obtain pre post where "xs = pre @ sub @ post" by blast
      then have "x # xs = (x # pre) @ sub @ post" by simp
      then show ?thesis by blast
    qed
  next
    assume "\<exists>pre post. x # xs = pre @ sub @ post"
    then obtain pre post where e: "x # xs = pre @ sub @ post" by blast
    show "str_includes (x # xs) sub"
    proof (cases pre)
      case Nil
      with e have "startsWith (x # xs) sub" by (auto simp: startsWith_iff)
      then show ?thesis by simp
    next
      case (Cons y ys)
      with e have "xs = ys @ sub @ post" by simp
      with Cons.IH have "str_includes xs sub" by blast
      then show ?thesis by simp
    qed
  qed
qed

lemma scan_commit_flags:
  "hasBreaking (scan_commit f l) = (hasBreaking f \<or> is_breaking l)"
  "hasFeature (scan_commit f l) = (hasFeature f \<or> (\<not> is_breaking l \<and> is_feature l))"
  "hasFix (scan_commit f l) = (hasFix f \<or> (\<not> is_breaking l \<and> \<not> is_feature l \<and> is_fix l))"
  by (auto simp: scan_commit_def is_breaking_def is_feature_def is_fix_def)

lemma foldl_scan_commit_flags:
  "hasBreaking (foldl scan_commit f ls) = (hasBreaking f \<or> list_ex is_breaking ls)"
  "hasFeature (foldl scan_commit f ls)
     = (hasFeature f \<or> list_ex (\<lambda>l. \<not> is_breaking l \<and> is_feature l) ls)"
  "hasFix (foldl scan_commit f ls)
     = (hasFix f \<or> list_ex (\<lambda>l. \<not> is_breaking l \<and> \<not> is_feature l \<and> is_fix l) ls)"
  by (induction ls arbitrary: f) (auto simp: scan_commit_flags)

lemma conventional_append:
  "conventional ty l \<longleftrightarrow> (\<exists>t. l = ty @ t \<and> conventional [] t)"
  by (auto simp: conventional_def)

lemma is_feature_iff: "is_feature l \<longleftrightarrow> conventional ''feat'' l"
proof -
  have "rests feat_rx l \<noteq> {}
        \<longleftrightarrow> (\<exists>t. l = ''feat'' @ t \<and> rests (Seq scope_rx (Chr CHR '':'')) t \<noteq> {})"
    unfolding feat_rx_def rests_Seq [of "lit ''feat''"] rests_lit by blast
  then show ?thesis
    unfolding is_feature_def rx_exec_rests rests_scope_colon
    by (subst conventional_append)
qed

lemma is_fix_iff:
  "is_fix l \<longleftrightarrow> list_ex (\<lambda>ty. conventional ty l)
                   [''fix'', ''docs'', ''style'', ''refactor'', ''test'', ''chore'']"
proof -
  let ?tys = "[''fix'', ''docs'', ''style'', ''refactor'', ''test'', ''chore'']"
  let ?T = "Grp (Alt (lit ''fix'') (Alt (lit ''docs'') (Alt (lit ''style'')
            (Alt (lit ''refactor'') (Alt (lit ''test'') (lit ''chore''))))))"
  have T: "rests ?T l = {t. list_ex (\<lambda>ty. l = ty @ t) ?tys}"
    unfolding rests_Grp rests_Alt rests_lit by auto
  have "rests fix_rx l \<noteq> {}
        \<longleftrightarrow> (\<exists>t. list_ex (\<lambda>ty. l = ty @ t) ?tys \<and> rests (Seq scope_rx (Chr CHR '':'')) t \<noteq> {})"
    unfolding fix_rx_def rests_Seq [of ?T] T by blast
  also have "\<dots> \<longleftrightarrow> list_ex (\<lambda>ty. \<exists>t. l = ty @ t \<and> conventional [] t) ?tys"
    unfolding rests_scope_colon list_ex_iff by blast
  also have "(\<lambda>ty. \<exists>t. l = ty @ t \<and> conventional [] t) = (\<lambda>ty. conventional ty l)"
    by (rule ext) (rule conventional_append [symmetric])
  finally show ?thesis
    by (simp only: is_fix_def rx_exec_rests)
qed

lemmas classify_eval =
  classify_def scan_commits_def resolve_bump_def scan_commit_def rx_exec_def feat_rx_def
  fix_rx_def scope_rx_def bt.simps(11) is_line_terminator_def

text \<open>
  C3. The scan accumulates three flags over the whole sequence of subject lines: the
  breaking flag is set when some line contains \<open>BREAKING CHANGE\<close> or \<open>!:\<close>; the feature flag when
  some line that is not breaking matches the feature pattern; the fix flag when some line
  that is neither breaking nor a feature matches the fix pattern (first match per line).
  The result is major if the breaking flag is set, else minor if the feature flag is,
  else patch. A line contains a text when the text occurs somewhere in it; the feature
  pattern matches the lines that begin with \<open>feat\<close>, an optional scope in parentheses and a
  colon, the fix pattern those that begin so with one of \<open>fix\<close>, \<open>docs\<close>, \<open>style\<close>, \<open>refactor\<close>,
  \<open>test\<close>, \<open>chore\<close>. \<open>determineVersionType\<close> returns this for the commit lines it is given,
  and the examples of the specification hold.
\<close>

theorem classify_spec:
  "hasBreaking (scan_commits ls) = list_ex is_breaking ls
   \<and> hasFeature (scan_commits ls) = list_ex (\<lambda>l. \<not> is_breaking l \<and> is_feature l) ls
   \<and> hasFix (scan_commits ls)
       = list_ex (\<lambda>l. \<not> is_breaking l \<and> \<not> is_feature l \<and> is_fix l) ls
   \<and> classify ls
       = (if list_ex is_breaking ls then Major
          else if list_ex (\<lambda>l. \<not> is_breaking l \<and> is_feature l) ls then Minor
          else if list_ex (\<lambda>l. \<not> is_breaking l \<and> \<not> is_feature l \<and> is_fix l) ls then Patch
          else Patch)
   \<and> (is_breaking l \<longleftrightarrow>
        (\<exists>pre post. l = pre @ ''BREAKING CHANGE'' @ post) \<or> (\<exists>pre post. l = pre @ ''!:'' @ post))
   \<and> (is_feature l \<longleftrightarrow> conventional ''feat'' l)
   \<and> (is_fix l \<longleftrightarrow> list_ex (\<lambda>ty. conventional ty l)
                      [''fix'', ''docs'', ''style'', ''refactor'', ''test'', ''chore''])
   \<and> determineVersionType (Commits ls) = classify ls
   \<and> classify [''feat: x'', ''fix: y''] = Minor
   \<and> classify [''fix: y'', ''chore: z''] = Patch
   \<and> classify [''feat!: x''] = Major
   \<and> classify [''BREAKING CHANGE: x''] = Major
   \<and> classify [] = Patch"
proof -
  have f: "hasBreaking (scan_commits ls) = list_ex is_breaking ls"
    "hasFeature (scan_commits ls) = list_ex (\<lambda>l. \<not> is_breaking l \<and> is_feature l) ls"
    "hasFix (scan_commits ls)
       = list_ex (\<lambda>l. \<not> is_breaking l \<and> \<not> is_feature l \<and> is_fix l) ls"
    by (simp_all add: scan_commits_def foldl_scan_commit_flags)
  have c: "classify ls
       = (if list_ex is_breaking ls then Major
          else if list_ex (\<lambda>l. \<not> is_breaking l \<and> is_feature l) ls then Minor
          else if list_ex (\<lambda>l. \<not> is_breaking l \<and> \<not> is_feature l \<and> is_fix l) ls then Patch
          else Patch)"
    by (simp add: classify_def resolve_bump_def f)
  have b: "is_breaking l \<longleftrightarrow>
        (\<exists>pre post. l = pre @ ''BREAKING CHANGE'' @ post) \<or> (\<exists>pre post. l = pre @ ''!:'' @ post)"
    by (simp add: is_breaking_def str_includes_iff)
  have e: "classify [] = Patch" by (simp add: classify_eval)
  have d: "determineVersionType (Commits ls) = classify ls" using e by simp
  have 1: "classify [''feat: x'', ''fix: y''] = Minor" by (simp add: classify_eval)
  have 2: "classify [''fix: y'', ''chore: z''] = Patch" by (simp add: classify_eval)
  have 3: "classify [''feat!: x''] = Major" by (simp add: classify_eval)
  have 4: "classify [''BREAKING CHANGE: x''] = Major" by (simp add: classify_eval)
  note p = is_feature_iff [of l] is_fix_iff [of l]
  from f c b p d e 1 2 3 4 show ?thesis by blast
qed

section \<open>version: the rewriting of dependency ranges\<close>

lemma update_distinct_map:
  "distinct (map fst al) \<Longrightarrow> k \<in> fst ` set al \<Longrightarrow>
   AList.update k v al = map (\<lambda>(k', v'). if k' = k then (k, v) else (k', v')) al"
proof (induction al)
  case Nil
  then show ?case by simp
next
  case (Cons a al)
  obtain k' v' where a: "a = (k', v')" by (cases a)
  show ?case
  proof (cases "k' = k")
    case True
    with Cons.prems a have "k \<notin> fst ` set al" by auto
    then have "map (\<lambda>(k', v'). if k' = k then (k, v) else (k', v')) al = al"
      by (induction al) auto
    with True a show ?thesis by simp
  next
    case False
    with Cons a show ?thesis by auto
  qed
qed

lemma foldl_bump_entry:
  "distinct (map fst es) \<Longrightarrow> distinct (map fst acc) \<Longrightarrow> fst ` set es \<subseteq> fst ` set acc \<Longrightarrow>
   foldl (bump_entry N next) acc es = map (entry_rewrite N next es) acc"
proof (induction es arbitrary: acc)
  case Nil
  then show ?case by (simp add: entry_rewrite_def)
next
  case (Cons e es)
  obtain dep rg where e: "e = (dep, rg)" by (cases e)
  let ?h = "\<lambda>(k', v'). if k' = dep then
              (if dep \<in> set N then (case rg of JStr r \<Rightarrow> (dep, JStr (preserveOperator r next)) | _ \<Rightarrow> (k', v'))
               else (k', v'))
            else (k', v')"
  have step: "bump_entry N next acc e = map ?h acc"
  proof (cases "dep \<in> set N \<and> (\<exists>r. rg = JStr r)")
    case True
    then obtain r where r: "rg = JStr r" by blast
    from Cons.prems e have "dep \<in> fst ` set acc" by auto
    from update_distinct_map[OF Cons.prems(2) this] True r e
    show ?thesis by (auto simp: bump_entry_def)
  next
    case False
    then have "bump_entry N next acc e = acc"
      by (auto simp: bump_entry_def e split: json.splits)
    moreover from False have "map ?h acc = acc"
      by (intro map_idI) (auto split: json.splits)
    ultimately show ?thesis by simp
  qed
  have keys: "map fst (map ?h acc) = map fst acc"
    by (induction acc) (auto split: json.splits)
  have "foldl (bump_entry N next) (map ?h acc) es = map (entry_rewrite N next es) (map ?h acc)"
  proof (rule Cons.IH)
    show "distinct (map fst es)" using Cons.prems(1) by simp
    show "distinct (map fst (map ?h acc))" using Cons.prems(2) by (simp only: keys)
    have "fst ` set (map ?h acc) = set (map fst (map ?h acc))" by (simp only: set_map)
    also have "\<dots> = fst ` set acc" by (simp only: keys set_map)
    finally show "fst ` set es \<subseteq> fst ` set (map ?h acc)" using Cons.prems(3) by auto
  qed
  moreover have "map (entry_rewrite N next es) (map ?h acc) = map (entry_rewrite N next (e # es)) acc"
  proof -
    from Cons.prems(1) e have nd: "map_of es dep = None"
      by (simp add: map_of_eq_None_iff)
    show ?thesis
      by (auto simp: entry_rewrite_def e nd split: json.splits option.splits)
  qed
  ultimately show ?case by (simp add: step)
qed


lemma foldl_bump_entry_self:
  assumes "distinct (map fst ds)"
  shows "foldl (bump_entry N next) ds ds = map (rewrite_entry (set N) next) ds"
proof -
  have "foldl (bump_entry N next) ds ds = map (entry_rewrite N next ds) ds"
    using assms by (intro foldl_bump_entry) auto
  also have "\<dots> = map (rewrite_entry (set N) next) ds"
  proof (rule map_cong[OF refl])
    fix e assume m: "e \<in> set ds"
    obtain k v where e: "e = (k, v)" by (cases e)
    with m assms have "map_of ds k = Some v" by simp
    then show "entry_rewrite N next ds e = rewrite_entry (set N) next e"
      by (auto simp: entry_rewrite_def rewrite_entry_def e split: json.splits)
  qed
  finally show ?thesis .
qed

lemma bump_package_field:
  "get_field (bump_package N next p) field
     = map_option (\<lambda>ds. foldl (bump_entry N next) ds ds) (get_field (data p) field)"
  by (cases field)
     (simp_all add: bump_package_def bump_field_def DEP_FIELDS_def split: option.splits)

lemma bump_package_version:
  "PackageJson.version (bump_package N next p) = next"
  "PackageJson.name (bump_package N next p) = PackageJson.name (data p)"
  by (simp_all add: bump_package_def bump_field_def DEP_FIELDS_def split: option.splits)

lemma version_op_written:
  assumes "version_op options history rootPkg ms = Inr res"
  shows "written res
         = map (\<lambda>p. (pkgPath p, bump_package (Set_new (map name (map mk_package ms)))
                                  (nextVersion res) p)) (map mk_package ms)"
  using assms
  by (auto simp: version_op_def Let_def split: sum.splits)

lemma names_mk_package: "set (map name (map mk_package ms)) = member_names ms"
  by (simp add: member_names_def comp_def)

lemma preserveOperator_cases:
  "preserveOperator r n =
     (if \<exists>t. r = ''^'' @ t then ''^'' @ n
      else if \<exists>t. r = ''~'' @ t then ''~'' @ n
      else if \<exists>t. r = ''>='' @ t then ''>='' @ n
      else if \<exists>t. r = ''='' @ t then ''='' @ n
      else n)"
  unfolding preserveOperator_def startsWith_iff by simp

text \<open>
  C6. When \<open>version_op\<close> succeeds with the new version \<open>next\<close>, then in every manifest
  written, in every dependency field present (a JSON object: its keys are distinct), the
  entries keep their names and order; an entry that names a workspace member has its
  range \<open>r\<close> replaced by \<open>preserveOperator r next\<close>, and an entry that names no workspace
  member keeps its range. \<open>preserveOperator\<close> keeps a leading \<open>^\<close>, \<open>~\<close>, \<open>>=\<close> or \<open>=\<close> and
  otherwise gives the bare new version. The manifest's own version becomes \<open>next\<close>.
\<close>

theorem version_rewrites_ranges:
  assumes "version_op options history rootPkg ms = Inr res"
    and "i < length ms"
    and "get_field (snd (ms ! i)) field = Some ds"
    and "distinct (map fst ds)"
  shows "length (written res) = length ms
         \<and> PackageJson.version (snd (written res ! i)) = nextVersion res
         \<and> get_field (snd (written res ! i)) field
             = Some (map (rewrite_entry (member_names ms) (nextVersion res)) ds)
         \<and> (\<forall>dep rg. dep \<notin> member_names ms \<longrightarrow>
               rewrite_entry (member_names ms) (nextVersion res) (dep, rg) = (dep, rg))
         \<and> (\<forall>dep r. dep \<in> member_names ms \<longrightarrow>
               rewrite_entry (member_names ms) (nextVersion res) (dep, JStr r)
                 = (dep, JStr (preserveOperator r (nextVersion res))))
         \<and> (\<forall>r n. preserveOperator r n =
               (if \<exists>t. r = ''^'' @ t then ''^'' @ n
                else if \<exists>t. r = ''~'' @ t then ''~'' @ n
                else if \<exists>t. r = ''>='' @ t then ''>='' @ n
                else if \<exists>t. r = ''='' @ t then ''='' @ n
                else n))"
proof -
  let ?N = "Set_new (map name (map mk_package ms))"
  let ?next = "nextVersion res"
  from version_op_written[OF assms(1)]
  have w: "written res = map (\<lambda>p. (pkgPath p, bump_package ?N ?next p)) (map mk_package ms)" .
  then have len: "length (written res) = length ms" by simp
  from w assms(2) have wi: "snd (written res ! i) = bump_package ?N ?next (mk_package (ms ! i))"
    by simp
  have d: "data (mk_package (ms ! i)) = snd (ms ! i)"
    by (simp add: mk_package_def split: prod.splits)
  have N: "set ?N = member_names ms" by (simp only: set_Set_new names_mk_package)
  have "get_field (snd (written res ! i)) field = Some (foldl (bump_entry ?N ?next) ds ds)"
    by (simp add: wi bump_package_field d assms(3))
  also have "foldl (bump_entry ?N ?next) ds ds = map (rewrite_entry (set ?N) ?next) ds"
    by (rule foldl_bump_entry_self[OF assms(4)])
  finally have f: "get_field (snd (written res ! i)) field
             = Some (map (rewrite_entry (member_names ms) ?next) ds)"
    by (simp only: N)
  have v: "PackageJson.version (snd (written res ! i)) = ?next"
    by (simp add: wi bump_package_version)
  show ?thesis
    using len v f preserveOperator_cases by (simp add: rewrite_entry_def)
qed

lemma ex_chain_version:
  "version_op \<lparr>bumpType = Minor, skipCi = True, noGitCommit = False\<rparr> NoTags None ex_chain
   = Inr \<lparr>nextVersion = ''1.1.0'',
          written =
            [(''packages/a/package.json'',
              manifest ''a'' ''1.1.0'' (Some [(''b'', JStr ''^1.1.0''), (''lodash'', JStr ''^4.17.0'')]) None),
             (''packages/b/package.json'',
              manifest ''b'' ''1.1.0'' (Some [(''c'', JStr ''~1.1.0'')]) None),
             (''packages/c/package.json'', manifest ''c'' ''1.1.0'' None None)],
          rootWritten = None,
          commitMessage = Some ''chore(release): v1.1.0 [skip ci]'',
          gitTag = Some ''v1.1.0''\<rparr>"
proof -
  have s: "semverBump ''1.0.0'' Minor = Inr ''1.1.0''"
    using semverBump_match[of "''1.0.0''" "''1''" "''0''" "''0''" "[]" Minor]
    by (simp add: semver_eval)
  have e: "ensureAllSameVersion (packages (buildWorkspace ex_chain)) = Inr ''1.0.0''"
    by (simp add: ex_chain_def ensureAllSameVersion_def Set_new_def mk_package_def manifest_def)
  show ?thesis
    unfolding version_op_def Let_def e
    by (simp add: s)
       (simp add: ex_chain_def mk_package_def manifest_def Set_new_def bump_package_def
          bump_field_def bump_entry_def DEP_FIELDS_def preserveOperator_def)
qed

theorem version_rewrites_ranges_witness:
  "\<exists>res. version_op \<lparr>bumpType = Minor, skipCi = True, noGitCommit = False\<rparr> NoTags None ex_chain
           = Inr res
         \<and> nextVersion res = ''1.1.0''
         \<and> get_field (snd (written res ! 0)) Dependencies
             = Some [(''b'', JStr ''^1.1.0''), (''lodash'', JStr ''^4.17.0'')]
         \<and> get_field (snd (written res ! 1)) Dependencies = Some [(''c'', JStr ''~1.1.0'')]"
proof -
  let ?o = "\<lparr>bumpType = Minor, skipCi = True, noGitCommit = False\<rparr>"
  obtain res where res: "version_op ?o NoTags None ex_chain = Inr res"
    and n: "nextVersion res = ''1.1.0''"
    using ex_chain_version by simp
  have m: "member_names ex_chain = {''a'', ''b'', ''c''}"
    by (auto simp: member_names_def ex_chain_def manifest_def)
  have "get_field (snd (written res ! 0)) Dependencies
          = Some (map (rewrite_entry (member_names ex_chain) (nextVersion res))
                      [(''b'', JStr ''^1.0.0''), (''lodash'', JStr ''^4.17.0'')])"
    using version_rewrites_ranges[OF res, of 0 Dependencies
        "[(''b'', JStr ''^1.0.0''), (''lodash'', JStr ''^4.17.0'')]"]
    by (simp add: ex_chain_def manifest_def)
  then have a: "get_field (snd (written res ! 0)) Dependencies
                  = Some [(''b'', JStr ''^1.1.0''), (''lodash'', JStr ''^4.17.0'')]"
    by (simp add: m n rewrite_entry_def preserveOperator_def)
  have "get_field (snd (written res ! 1)) Dependencies
          = Some (map (rewrite_entry (member_names ex_chain) (nextVersion res))
                      [(''c'', JStr ''~1.0.0'')])"
    using version_rewrites_ranges[OF res, of 1 Dependencies "[(''c'', JStr ''~1.0.0'')]"]
    by (simp add: ex_chain_def manifest_def)
  then have b: "get_field (snd (written res ! 1)) Dependencies = Some [(''c'', JStr ''~1.1.0'')]"
    by (simp add: m n rewrite_entry_def preserveOperator_def)
  from res n a b show ?thesis by blast
qed

section \<open>topoSort\<close>

subsection \<open>The in-degrees\<close>

lemma map_of_count_edge:
  "map_of (count_edge m v) = (map_of m)(v \<mapsto> plus_one (or_zero (map_of m v)))"
  by (simp add: count_edge_def update_conv')

lemma plus_one_or_zero: "x \<noteq> Some NaN \<Longrightarrow> plus_one (or_zero x) = Num (ival x + 1)"
  by (cases x rule: ival.cases) simp_all

lemma is_num_count_edge: "is_num m \<Longrightarrow> is_num (count_edge m v)"
  by (auto simp: is_num_def map_of_count_edge plus_one_or_zero)

lemma ival_count_edge:
  "is_num m \<Longrightarrow> ival (map_of (count_edge m v) w) = ival (map_of m w) + (if w = v then 1 else 0)"
  by (auto simp: is_num_def map_of_count_edge plus_one_or_zero)

lemma foldl_count_edge:
  "is_num m \<Longrightarrow>
     is_num (foldl count_edge m vs)
     \<and> dom (map_of (foldl count_edge m vs)) = dom (map_of m) \<union> set vs
     \<and> ival (map_of (foldl count_edge m vs) w) = ival (map_of m w) + int (count_list vs w)"
proof (induction vs arbitrary: m)
  case Nil
  then show ?case by simp
next
  case (Cons v vs)
  from Cons.prems have n: "is_num (count_edge m v)" by (rule is_num_count_edge)
  have d: "dom (map_of (count_edge m v)) = insert v (dom (map_of m))"
    by (simp add: map_of_count_edge)
  from Cons.IH[OF n] ival_count_edge[OF Cons.prems, of v w] d
  show ?case by auto
qed

lemma foldl_count_edges:
  "foldl (\<lambda>inDeg (k, vs). foldl count_edge inDeg vs) m g
     = foldl count_edge m (concat (map snd g))"
  by (induction g arbitrary: m) auto

lemma in_degrees_concat:
  "in_degrees pkgs g
     = foldl count_edge (Map_new (map (\<lambda>p. (name p, Num 0)) pkgs)) (concat (map snd g))"
  by (simp add: in_degrees_def foldl_count_edges)

lemma map_of_Map_new_const:
  "map_of (foldl (\<lambda>m (k, v). Map_set m k v) m0 (map (\<lambda>x. (f x, c)) xs)) k
     = (if k \<in> f ` set xs then Some c else map_of m0 k)"
  by (induction xs arbitrary: m0) (auto simp: update_conv')

lemma map_of_inDeg0:
  "map_of (Map_new (map (\<lambda>p. (name p, Num 0)) pkgs)) k
     = (if k \<in> name ` set pkgs then Some (Num 0) else None)"
  using map_of_Map_new_const[of "[]" name "Num 0" pkgs k] by (simp add: Map_new_def)

lemma count_list_concat:
  "count_list (concat xss) v = sum_list (map (\<lambda>xs. count_list xs v) xss)"
  by (induction xss) simp_all

lemma dependents_of_key:
  "distinct (map fst g) \<Longrightarrow> (k, vs) \<in> set g \<Longrightarrow> dependents_of g k = vs"
  by (simp add: dependents_of_def)

lemma sum_adjacency:
  assumes "distinct (map fst g)"
  shows "sum_list (map (\<lambda>e. count_list (snd e) v) g)
         = sum_list (map (\<lambda>d. count_list (dependents_of g d) v) (map fst g))"
proof -
  have "map (\<lambda>e. count_list (snd e) v) g = map (\<lambda>e. count_list (dependents_of g (fst e)) v) g"
    by (rule map_cong[OF refl]) (simp add: dependents_of_key[OF assms, of "fst e" "snd e" for e])
  also have "\<dots> = map (\<lambda>d. count_list (dependents_of g d) v) (map fst g)"
    by (simp add: comp_def)
  finally show ?thesis by (rule arg_cong)
qed

lemma in_degrees_names:
  assumes wf: "well_formed (map name pkgs) g" and v: "v \<in> set (map name pkgs)"
  shows "map_of (in_degrees pkgs g) v = Some (Num (int (remaining g (map name pkgs) [] v)))"
proof -
  let ?ini = "Map_new (map (\<lambda>p. (name p, Num 0)) pkgs)"
  let ?m = "in_degrees pkgs g"
  from wf have dk: "distinct (map fst g)" and keys: "map fst g = map name pkgs"
    by (simp_all add: well_formed_def)
  have n0: "is_num ?ini" by (simp add: is_num_def map_of_inDeg0)
  note fc = foldl_count_edge[OF n0, of "concat (map snd g)" v, folded in_degrees_concat]
  from fc have n: "is_num ?m" by (rule conjunct1)
  from fc have d: "dom (map_of ?m) = dom (map_of ?ini) \<union> set (concat (map snd g))"
    by (rule conjunct2[THEN conjunct1])
  from fc
  have i: "ival (map_of ?m v) = ival (map_of ?ini v) + int (count_list (concat (map snd g)) v)"
    by (rule conjunct2[THEN conjunct2])
  from v have "v \<in> dom (map_of ?ini)" by (simp add: map_of_inDeg0 dom_def)
  with d obtain x where x: "map_of ?m v = Some x" by auto
  with n obtain j where j: "x = Num j" by (cases x) (auto simp: is_num_def)
  from v have "ival (map_of ?ini v) = 0" by (simp add: map_of_inDeg0)
  with i x j have "j = int (count_list (concat (map snd g)) v)" by simp
  also have "count_list (concat (map snd g)) v = sum_list (map (\<lambda>e. count_list (snd e) v) g)"
    by (simp add: count_list_concat comp_def)
  also have "\<dots> = remaining g (map name pkgs) [] v"
    by (simp add: sum_adjacency[OF dk] keys remaining_def)
  finally show ?thesis using x j by simp
qed

subsection \<open>The remaining in-degree\<close>

lemma sum_list_filter_remove:
  assumes "distinct xs" and "n \<in> set xs" and "P n"
  shows "sum_list (map f (filter P xs)) = sum_list (map f (filter (\<lambda>x. P x \<and> x \<noteq> n) xs)) + (f n :: nat)"
  using assms
proof (induction xs)
  case Nil
  then show ?case by simp
next
  case (Cons x xs)
  show ?case
  proof (cases "x = n")
    case True
    with Cons.prems have "n \<notin> set xs" by simp
    then have "filter (\<lambda>x. P x \<and> x \<noteq> n) xs = filter P xs"
      by (intro filter_cong) auto
    with True Cons.prems show ?thesis by simp
  next
    case False
    with Cons show ?thesis by auto
  qed
qed

lemma remaining_snoc:
  assumes "distinct names" and "n \<in> set names" and "n \<notin> set out"
  shows "remaining g names out v
         = remaining g names (out @ [n]) v + count_list (dependents_of g n) v"
proof -
  have "filter (\<lambda>d. d \<notin> set (out @ [n])) names = filter (\<lambda>d. d \<notin> set out \<and> d \<noteq> n) names"
    by (intro filter_cong) auto
  with sum_list_filter_remove[OF assms(1,2), of "\<lambda>d. d \<notin> set out", OF assms(3)]
  show ?thesis by (simp add: remaining_def)
qed

lemma remaining_zero_iff:
  "remaining g names out v = 0
     \<longleftrightarrow> (\<forall>d\<in>set names - set out. v \<notin> set (dependents_of g d))"
  by (auto simp: remaining_def count_list_0_iff)

subsection \<open>One pass over the dependents of a dequeued name\<close>

lemma relax_Num:
  assumes "map_of inDeg x = Some (Num i)"
  shows "relax (inDeg, q) x = (Map_set inDeg x (Num (i - 1)), if i = 1 then q @ [x] else q)"
  using assms by (simp add: relax_def Let_def)

lemma foldl_relax:
  assumes "\<forall>v\<in>set vs. map_of inDeg v = Some (Num (d v)) \<and> int (count_list vs v) \<le> d v"
  shows "\<exists>inDeg' ps. foldl relax (inDeg, q) vs = (inDeg', q @ ps)
           \<and> distinct ps \<and> set ps = {v \<in> set vs. d v = int (count_list vs v)}
           \<and> (\<forall>v. map_of inDeg' v
                    = (if v \<in> set vs then Some (Num (d v - int (count_list vs v)))
                       else map_of inDeg v))"
  using assms
proof (induction vs arbitrary: inDeg q d)
  case Nil
  then show ?case by simp
next
  case (Cons x vs)
  let ?i1 = "Map_set inDeg x (Num (d x - 1))"
  let ?q1 = "if d x = 1 then q @ [x] else q"
  let ?d1 = "d(x := d x - 1)"
  from Cons.prems have x: "map_of inDeg x = Some (Num (d x))"
    and xc: "int (count_list vs x) + 1 \<le> d x" by simp_all
  have step: "relax (inDeg, q) x = (?i1, ?q1)" by (rule relax_Num[OF x])
  have pre: "\<forall>v\<in>set vs. map_of ?i1 v = Some (Num (?d1 v)) \<and> int (count_list vs v) \<le> ?d1 v"
    using Cons.prems xc by (auto simp: update_conv')
  from Cons.IH[OF pre, of ?q1] obtain inDeg' ps where
    f: "foldl relax (?i1, ?q1) vs = (inDeg', ?q1 @ ps)" and dps: "distinct ps"
    and sps: "set ps = {v \<in> set vs. ?d1 v = int (count_list vs v)}"
    and m: "\<forall>v. map_of inDeg' v
                    = (if v \<in> set vs then Some (Num (?d1 v - int (count_list vs v)))
                       else map_of ?i1 v)"
    by blast
  let ?ps = "(if d x = 1 then [x] else []) @ ps"
  have 1: "foldl relax (inDeg, q) (x # vs) = (inDeg', q @ ?ps)"
    using f step by simp
  have xin: "x \<in> set vs \<Longrightarrow> 2 \<le> d x"
  proof -
    assume "x \<in> set vs"
    then have "count_list vs x \<noteq> 0" by (simp add: count_list_0_iff)
    then have "0 < count_list vs x" by simp
    with xc show ?thesis by simp
  qed
  have 2: "distinct ?ps"
    using dps sps xin by auto
  have 3: "set ?ps = {v \<in> set (x # vs). d v = int (count_list (x # vs) v)}"
  proof (intro set_eqI iffI)
    fix v assume "v \<in> set ?ps"
    then consider "v = x" "d x = 1" | "v \<in> set ps" by (auto split: if_splits)
    then show "v \<in> {v \<in> set (x # vs). d v = int (count_list (x # vs) v)}"
    proof cases
      case 1
      with xin have "x \<notin> set vs" by auto
      then have "count_list vs x = 0" by (simp add: count_list_0_iff)
      with 1 show ?thesis by simp
    next
      case 2
      with sps show ?thesis by (auto split: if_splits)
    qed
  next
    fix v assume "v \<in> {v \<in> set (x # vs). d v = int (count_list (x # vs) v)}"
    then have v: "v = x \<or> v \<in> set vs" and dv: "d v = int (count_list (x # vs) v)" by auto
    show "v \<in> set ?ps"
    proof (cases "v = x")
      case True
      show ?thesis
      proof (cases "x \<in> set vs")
        case True
        with dv \<open>v = x\<close> sps show ?thesis by auto
      next
        case False
        then have "count_list vs x = 0" by (simp add: count_list_0_iff)
        with dv \<open>v = x\<close> show ?thesis by simp
      qed
    next
      case False
      with v dv sps show ?thesis by auto
    qed
  qed
  have 4: "\<forall>v. map_of inDeg' v
                = (if v \<in> set (x # vs) then Some (Num (d v - int (count_list (x # vs) v)))
                   else map_of inDeg v)"
    using m by (auto simp: update_conv')
  from 1 2 3 4 show ?case by blast
qed

text \<open>What one pass does to the entry of a single name, whatever the other entries are.\<close>

lemma foldl_relax_entry:
  "map_of inDeg v = Some (Num i) \<Longrightarrow>
   map_of (fst (foldl relax (inDeg, q) vs)) v = Some (Num (i - int (count_list vs v)))"
proof (induction vs arbitrary: inDeg q i)
  case Nil
  then show ?case by simp
next
  case (Cons x vs)
  obtain i1 q1 where s: "relax (inDeg, q) x = (i1, q1)" by (cases "relax (inDeg, q) x")
  then have i1: "i1 = Map_set inDeg x (minus_one (map_of inDeg x))"
    by (auto simp: relax_def Let_def)
  have "map_of i1 v = Some (Num (if v = x then i - 1 else i))"
    using Cons.prems by (auto simp: i1 update_conv')
  from Cons.IH[OF this, of q1] s show ?case by simp
qed

subsection \<open>The invariant of the loop\<close>

lemma well_formed_dependents:
  assumes "well_formed names g" and "v \<in> set (dependents_of g n)"
  shows "v \<in> set names" and "n \<in> set names"
proof -
  from assms(2) obtain vs where vs: "map_of g n = Some vs" and v: "v \<in> set vs"
    by (cases "map_of g n") (auto simp: dependents_of_def)
  from vs have m: "(n, vs) \<in> set g" by (rule map_of_SomeD)
  with assms(1) have "set vs \<subseteq> set names" by (force simp: well_formed_def)
  with v show "v \<in> set names" by blast
  from m have "n \<in> set (map fst g)" by force
  with assms(1) show "n \<in> set names" by (simp add: well_formed_def)
qed

lemma graph_edges_names:
  "well_formed names g \<Longrightarrow> graph_edges g \<subseteq> set names \<times> set names"
  using well_formed_dependents by (auto simp: graph_edges_def)

lemma kahn_inv_init:
  assumes wf: "well_formed (map name pkgs) g"
  shows "kahn_inv g (map name pkgs) (in_degrees pkgs g)
           (filter (\<lambda>n. or_zero (Map_get (in_degrees pkgs g) n) = Num 0) (map name pkgs)) []"
proof -
  from wf have "distinct (map name pkgs)" by (simp add: well_formed_def)
  then show ?thesis
    unfolding kahn_inv_def
    by (auto simp: in_degrees_names[OF wf] ordered_def)
qed

lemma ordered_snoc:
  assumes "ordered g out" and "\<forall>u. (u, n) \<in> graph_edges g \<longrightarrow> u \<in> set out"
  shows "ordered g (out @ [n])"
  unfolding ordered_def
proof (intro allI impI)
  fix i u assume i: "i < length (out @ [n])" and e: "(u, (out @ [n]) ! i) \<in> graph_edges g"
  show "u \<in> set (take i (out @ [n]))"
  proof (cases "i < length out")
    case True
    with e assms(1) show ?thesis by (auto simp: ordered_def nth_append)
  next
    case False
    with i have "i = length out" by simp
    with e assms(2) show ?thesis by simp
  qed
qed

lemma kahn_inv_step:
  assumes wf: "well_formed names g"
    and inv: "kahn_inv g names inDeg (n # q) out"
    and f: "foldl relax (inDeg, q) (dependents_of g n) = (inDeg', q')"
  shows "kahn_inv g names inDeg' q' (out @ [n])"
proof -
  let ?vs = "dependents_of g n"
  let ?r = "remaining g names out"
  let ?r' = "remaining g names (out @ [n])"
  from wf have dn: "distinct names" by (simp add: well_formed_def)
  from inv have d: "distinct (out @ n # q)" and sub: "set (out @ n # q) \<subseteq> set names"
    and deg: "\<forall>v\<in>set names. map_of inDeg v = Some (Num (int (?r v)))"
    and zero: "\<forall>v\<in>set names. v \<in> set (out @ n # q) \<longleftrightarrow> ?r v = 0"
    and ord: "ordered g out"
    by (simp_all add: kahn_inv_def)
  from sub d have n: "n \<in> set names" "n \<notin> set out" by auto
  have snoc: "\<And>v. ?r v = ?r' v + count_list ?vs v"
    by (rule remaining_snoc[OF dn n])
  have vs: "\<And>v. v \<in> set ?vs \<Longrightarrow> v \<in> set names"
    by (rule well_formed_dependents(1)[OF wf])
  have pre: "\<forall>v\<in>set ?vs. map_of inDeg v = Some (Num (int (?r v)))
               \<and> int (count_list ?vs v) \<le> int (?r v)"
    using deg vs snoc by auto
  from foldl_relax[OF pre, of q] f obtain ps where
    q': "q' = q @ ps" and dps: "distinct ps"
    and sps: "set ps = {v \<in> set ?vs. int (?r v) = int (count_list ?vs v)}"
    and m: "\<forall>v. map_of inDeg' v
                = (if v \<in> set ?vs then Some (Num (int (?r v) - int (count_list ?vs v)))
                   else map_of inDeg v)"
    by auto
  have ps_new: "\<And>v. v \<in> set ps \<Longrightarrow> ?r v \<noteq> 0 \<and> ?r' v = 0 \<and> v \<in> set names"
  proof -
    fix v assume "v \<in> set ps"
    with sps have v: "v \<in> set ?vs" and e: "?r v = count_list ?vs v" by auto
    from v have "count_list ?vs v \<noteq> 0" by (simp add: count_list_0_iff)
    with e snoc[of v] vs[OF v] show "?r v \<noteq> 0 \<and> ?r' v = 0 \<and> v \<in> set names" by simp
  qed
  have 1: "distinct ((out @ [n]) @ q')"
  proof -
    have "set ps \<inter> set (out @ n # q) = {}"
    proof (rule ccontr)
      assume "set ps \<inter> set (out @ n # q) \<noteq> {}"
      then obtain v where v: "v \<in> set ps" "v \<in> set (out @ n # q)" by blast
      from ps_new[OF v(1)] have "?r v \<noteq> 0" and "v \<in> set names" by simp_all
      with zero v(2) show False by auto
    qed
    with d dps show ?thesis by (auto simp: q')
  qed
  have 2: "set ((out @ [n]) @ q') \<subseteq> set names"
    using sub ps_new by (auto simp: q')
  have 3: "\<forall>v\<in>set names. map_of inDeg' v = Some (Num (int (?r' v)))"
  proof
    fix v assume v: "v \<in> set names"
    show "map_of inDeg' v = Some (Num (int (?r' v)))"
    proof (cases "v \<in> set ?vs")
      case True
      with m snoc[of v] show ?thesis by simp
    next
      case False
      then have "count_list ?vs v = 0" by simp
      with m False deg v snoc[of v] show ?thesis by simp
    qed
  qed
  have 4: "\<forall>v\<in>set names. v \<in> set ((out @ [n]) @ q') \<longleftrightarrow> ?r' v = 0"
  proof
    fix v assume v: "v \<in> set names"
    show "v \<in> set ((out @ [n]) @ q') \<longleftrightarrow> ?r' v = 0"
    proof
      assume "v \<in> set ((out @ [n]) @ q')"
      then consider "v \<in> set (out @ n # q)" | "v \<in> set ps" by (auto simp: q')
      then show "?r' v = 0"
      proof cases
        case 1
        with zero v have "?r v = 0" by auto
        with snoc[of v] show ?thesis by simp
      next
        case 2
        with ps_new[of v] show ?thesis by simp
      qed
    next
      assume z: "?r' v = 0"
      show "v \<in> set ((out @ [n]) @ q')"
      proof (cases "?r v = 0")
        case True
        with zero v have "v \<in> set (out @ n # q)" by auto
        then show ?thesis by (auto simp: q')
      next
        case False
        with z snoc[of v] have c: "?r v = count_list ?vs v" "count_list ?vs v \<noteq> 0" by simp_all
        then have "v \<in> set ?vs" by (simp add: count_list_0_iff)
        with c sps have "v \<in> set ps" by simp
        then show ?thesis by (simp add: q')
      qed
    qed
  qed
  have 5: "ordered g (out @ [n])"
  proof (rule ordered_snoc[OF ord], intro allI impI)
    fix u assume e: "(u, n) \<in> graph_edges g"
    then have nu: "n \<in> set (dependents_of g u)" by (simp add: graph_edges_def)
    from zero n have "?r n = 0" by auto
    then have "\<forall>d\<in>set names - set out. n \<notin> set (dependents_of g d)"
      by (simp only: remaining_zero_iff)
    moreover from well_formed_dependents(2)[OF wf nu] have "u \<in> set names" .
    ultimately show "u \<in> set out" using nu by blast
  qed
  from 1 2 3 4 5 show ?thesis by (simp only: kahn_inv_def)
qed

lemma kahn_loop_inv:
  assumes "well_formed names g" and "kahn_inv g names inDeg q out"
  shows "\<exists>inDeg'. kahn_inv g names inDeg' [] (kahn_loop g inDeg q out)"
  using assms
proof (induction g inDeg q out rule: kahn_loop.induct)
  case (1 g inDeg out)
  then show ?case by auto
next
  case (2 g inDeg n q out)
  obtain inDeg' q' where f: "foldl relax (inDeg, q) (dependents_of g n) = (inDeg', q')"
    by (cases "foldl relax (inDeg, q) (dependents_of g n)")
  from kahn_inv_step[OF "2.prems"(1) "2.prems"(2) f]
  have "kahn_inv g names inDeg' q' (out @ [n])" .
  from "2.IH"[OF f[symmetric] "2.prems"(1) this] f show ?case by simp
qed

lemma emit_order_inv:
  assumes "well_formed (map name pkgs) g"
  shows "\<exists>inDeg'. kahn_inv g (map name pkgs) inDeg' [] (emit_order pkgs g)"
  unfolding emit_order_def Let_def
  by (rule kahn_loop_inv[OF assms kahn_inv_init[OF assms]])

subsection \<open>What the loop has emitted when it ends\<close>

lemma emit_order_props:
  assumes wf: "well_formed (map name pkgs) g"
  shows "distinct (emit_order pkgs g)"
    and "set (emit_order pkgs g) \<subseteq> set (map name pkgs)"
    and "ordered g (emit_order pkgs g)"
    and "\<forall>v\<in>set (map name pkgs) - set (emit_order pkgs g).
           \<exists>d\<in>set (map name pkgs) - set (emit_order pkgs g). (d, v) \<in> graph_edges g"
proof -
  let ?res = "emit_order pkgs g" and ?names = "map name pkgs"
  from emit_order_inv[OF wf] obtain inDeg' where inv: "kahn_inv g ?names inDeg' [] ?res" ..
  then show "distinct ?res" "set ?res \<subseteq> set ?names" "ordered g ?res"
    by (simp_all add: kahn_inv_def)
  from inv have z: "\<forall>v\<in>set ?names. v \<in> set ?res \<longleftrightarrow> remaining g ?names ?res v = 0"
    by (simp add: kahn_inv_def)
  show "\<forall>v\<in>set ?names - set ?res. \<exists>d\<in>set ?names - set ?res. (d, v) \<in> graph_edges g"
  proof
    fix v assume v: "v \<in> set ?names - set ?res"
    with z have "remaining g ?names ?res v \<noteq> 0" by auto
    then show "\<exists>d\<in>set ?names - set ?res. (d, v) \<in> graph_edges g"
      by (simp only: remaining_zero_iff graph_edges_def) auto
  qed
qed

lemma emit_order_before:
  assumes wf: "well_formed (map name pkgs) g"
    and i: "i < length (emit_order pkgs g)" and j: "j < length (emit_order pkgs g)"
    and e: "emit_order pkgs g ! j \<in> set (dependents_of g (emit_order pkgs g ! i))"
  shows "i < j"
proof -
  let ?res = "emit_order pkgs g"
  from e have "(?res ! i, ?res ! j) \<in> graph_edges g" by (simp add: graph_edges_def)
  with emit_order_props(3)[OF wf] j have "?res ! i \<in> set (take j ?res)"
    by (simp add: ordered_def)
  then obtain k where k: "k < j" "?res ! k = ?res ! i"
    using j by (auto simp: in_set_conv_nth)
  with emit_order_props(1)[OF wf] i j have "k = i"
    by (simp add: nth_eq_iff_index_eq)
  with k show ?thesis by simp
qed

lemma emit_order_complete:
  assumes wf: "well_formed (map name pkgs) g" and ac: "acyclic (graph_edges g)"
  shows "set (emit_order pkgs g) = set (map name pkgs)"
proof (rule ccontr)
  let ?res = "emit_order pkgs g" and ?names = "map name pkgs"
  let ?U = "set ?names - set ?res"
  assume "set ?res \<noteq> set ?names"
  with emit_order_props(2)[OF wf] obtain x where x: "x \<in> ?U" by blast
  have "finite (graph_edges g)"
    by (rule finite_subset[OF graph_edges_names[OF wf]]) simp
  from finite_acyclic_wf[OF this ac] have "wf (graph_edges g)" .
  from wfE_min[OF this x] obtain z where z: "z \<in> ?U" "\<And>y. (y, z) \<in> graph_edges g \<Longrightarrow> y \<notin> ?U"
    by blast
  from emit_order_props(4)[OF wf] z(1) obtain d where "d \<in> ?U" "(d, z) \<in> graph_edges g"
    by blast
  with z(2) show False by blast
qed

lemma distinct_same_set_length:
  assumes "distinct xs" and "distinct ys" and "set xs \<subseteq> set ys" and "length xs = length ys"
  shows "set xs = set ys"
proof -
  from assms have "card (set xs) = card (set ys)" by (simp add: distinct_card)
  with assms(3) show ?thesis by (simp add: card_subset_eq)
qed

lemma rank_nth:
  assumes "distinct xs" and "i < length xs"
  shows "length (takeWhile (\<lambda>y. y \<noteq> xs ! i) xs) = i"
proof -
  have "takeWhile (\<lambda>y. y \<noteq> xs ! i) xs = take i xs"
  proof (rule takeWhile_eq_take_P_nth)
    fix j assume "j < i" "j < length xs"
    with assms show "xs ! j \<noteq> xs ! i" by (simp add: nth_eq_iff_index_eq)
  qed simp
  with assms(2) show ?thesis by simp
qed

lemma emit_order_acyclic:
  assumes wf: "well_formed (map name pkgs) g"
    and len: "length (emit_order pkgs g) = length pkgs"
  shows "acyclic (graph_edges g)"
proof -
  let ?res = "emit_order pkgs g" and ?names = "map name pkgs"
  let ?rank = "\<lambda>x. length (takeWhile (\<lambda>y. y \<noteq> x) ?res)"
  from wf have dn: "distinct ?names" by (simp add: well_formed_def)
  note p = emit_order_props[OF wf]
  from distinct_same_set_length[OF p(1) dn p(2)] len have all: "set ?res = set ?names" by simp
  show ?thesis
  proof (rule acyclicI_order[where f = "\<lambda>x. - int (?rank x)"])
    fix u v assume e: "(u, v) \<in> graph_edges g"
    with graph_edges_names[OF wf] all have "v \<in> set ?res" by auto
    then obtain j where j: "j < length ?res" "?res ! j = v" by (auto simp: in_set_conv_nth)
    with p(3) e have "u \<in> set (take j ?res)" by (auto simp: ordered_def)
    then obtain i where i: "i < j" "?res ! i = u" using j(1) by (auto simp: in_set_conv_nth)
    from rank_nth[OF p(1), of i] rank_nth[OF p(1) j(1)] i j
    have "?rank u = i" "?rank v = j" by auto
    with i(1) show "- int (?rank v) < - int (?rank u)" by simp
  qed
qed

lemma topoSort_cases:
  "topoSort pkgs g = (if length (emit_order pkgs g) \<noteq> length pkgs then Inl CycleDetected
                      else Inr (emit_order pkgs g))"
  by (simp add: topoSort_def Let_def)

lemma emit_order_length_le:
  assumes wf: "well_formed (map name pkgs) g"
  shows "length (emit_order pkgs g) \<le> length pkgs"
proof -
  note p = emit_order_props[OF wf]
  from p(1) have "length (emit_order pkgs g) = card (set (emit_order pkgs g))"
    by (simp add: distinct_card)
  also from p(2) have "\<dots> \<le> card (set (map name pkgs))" by (intro card_mono) auto
  also have "\<dots> \<le> length pkgs" using card_length[of "map name pkgs"] by simp
  finally show ?thesis .
qed

lemma topoSort_acyclic:
  assumes wf: "well_formed (map name pkgs) g" and ac: "acyclic (graph_edges g)"
  shows "topoSort pkgs g = Inr (emit_order pkgs g)"
    and "mset (emit_order pkgs g) = mset (map name pkgs)"
proof -
  from wf have dn: "distinct (map name pkgs)" by (simp add: well_formed_def)
  note p = emit_order_props[OF wf]
  from emit_order_complete[OF wf ac]
  show m: "mset (emit_order pkgs g) = mset (map name pkgs)"
    by (simp only: set_eq_iff_mset_eq_distinct[OF p(1) dn])
  then have "length (emit_order pkgs g) = length (map name pkgs)"
    by (rule mset_eq_length)
  then show "topoSort pkgs g = Inr (emit_order pkgs g)" by (simp add: topoSort_cases)
qed

lemma topoSort_cyclic:
  assumes wf: "well_formed (map name pkgs) g" and cy: "\<not> acyclic (graph_edges g)"
  shows "topoSort pkgs g = Inl CycleDetected" and "length (emit_order pkgs g) < length pkgs"
proof -
  from emit_order_acyclic[OF wf] cy have "length (emit_order pkgs g) \<noteq> length pkgs" by blast
  then show "topoSort pkgs g = Inl CycleDetected" by (simp add: topoSort_cases)
  from \<open>length (emit_order pkgs g) \<noteq> length pkgs\<close> emit_order_length_le[OF wf]
  show "length (emit_order pkgs g) < length pkgs" by simp
qed

subsection \<open>The graph of a workspace\<close>

lemma keys_graph0:
  "distinct (map fst g0 @ map name pkgs) \<Longrightarrow>
   map fst (foldl (\<lambda>g p. Map_set g (name p) []) g0 pkgs) = map fst g0 @ map name pkgs"
proof (induction pkgs arbitrary: g0)
  case Nil
  then show ?case by simp
next
  case (Cons p pkgs)
  from Cons.prems have "name p \<notin> set (map fst g0)" by auto
  then have k: "map fst (Map_set g0 (name p) []) = map fst g0 @ [name p]"
    by (simp add: update_keys)
  with Cons.prems have "distinct (map fst (Map_set g0 (name p) []) @ map name pkgs)" by auto
  from Cons.IH[OF this] k show ?case by simp
qed

lemma keys_record_edge: "map fst (record_edge byNm g e) = map fst g"
proof -
  have "\<And>k vs w. map_of g k = Some vs \<Longrightarrow> map fst (Map_set g k w) = map fst g"
  proof -
    fix k vs w assume "map_of g k = Some vs"
    then have "k \<in> set (map fst g)" by (force dest: map_of_SomeD)
    then show "map fst (Map_set g k w) = map fst g" by (simp add: update_keys)
  qed
  then show ?thesis
    by (cases e) (auto simp: record_edge_def push_dependent_def split: option.splits)
qed

lemma keys_foldl_record_edge: "map fst (foldl (record_edge byNm) g es) = map fst g"
  by (induction es arbitrary: g) (simp_all add: keys_record_edge)

lemma names_packages:
  "map name (map mk_package ms) = map (\<lambda>m. PackageJson.name (snd m)) ms"
  by (induction ms) simp_all

lemma graph_keys:
  assumes "distinct (map (\<lambda>m. PackageJson.name (snd m)) ms)"
  shows "map fst (graph (buildWorkspace ms)) = map (\<lambda>m. PackageJson.name (snd m)) ms"
proof -
  from assms have "distinct (map fst [] @ map name (map mk_package ms))"
    by (simp only: names_packages) simp
  from keys_graph0[OF this]
  have "map fst (foldl (\<lambda>g p. Map_set g (name p) []) [] (map mk_package ms))
          = map (\<lambda>m. PackageJson.name (snd m)) ms"
    by (simp only: names_packages) simp
  then show ?thesis
    by (simp add: buildWorkspace_def Let_def foldl_scan_package_edges keys_foldl_record_edge)
qed

lemma dependents_members: "set (dependents ms d) \<subseteq> member_names ms"
  by (auto simp: dependents_def member_names_def)

lemma workspace_well_formed:
  assumes "distinct (map (\<lambda>m. PackageJson.name (snd m)) ms)"
  shows "well_formed (map name (packages (buildWorkspace ms))) (graph (buildWorkspace ms))"
proof -
  let ?g = "graph (buildWorkspace ms)"
  have n: "map name (packages (buildWorkspace ms)) = map (\<lambda>m. PackageJson.name (snd m)) ms"
    by (simp only: packages_buildWorkspace names_packages)
  have s: "set (map (\<lambda>m. PackageJson.name (snd m)) ms) = member_names ms"
    by (simp add: member_names_def)
  have "\<forall>vs\<in>snd ` set ?g. set vs \<subseteq> member_names ms"
  proof
    fix vs assume "vs \<in> snd ` set ?g"
    then obtain k where "(k, vs) \<in> set ?g" by force
    with graph_keys_distinct[of ms] have "map_of ?g k = Some vs" by simp
    then have "vs = dependents ms k" by (simp add: graph_lookup split: if_splits)
    with dependents_members show "set vs \<subseteq> member_names ms" by simp
  qed
  with assms graph_keys[OF assms] show ?thesis
    by (simp only: well_formed_def n s)
qed

lemma set_dependents:
  "set (dependents ms d)
     = {PackageJson.name (snd A) | A. A \<in> set ms \<and> d \<in> set (dep_keys (snd A))}"
proof -
  have "\<And>p. p \<in> set (dependents ms d)
          \<longleftrightarrow> (\<exists>A\<in>set ms. d \<in> set (dep_keys (snd A)) \<and> p = PackageJson.name (snd A))"
    unfolding dependents_def by (simp add: image_iff) blast
  then show ?thesis by blast
qed

lemma graph_edges_internal: "graph_edges (graph (buildWorkspace ms)) = internal_deps ms"
proof (intro set_eqI iffI)
  fix e assume "e \<in> graph_edges (graph (buildWorkspace ms))"
  then obtain d p where e: "e = (d, p)" and p: "p \<in> set (dependents_of (graph (buildWorkspace ms)) d)"
    by (auto simp: graph_edges_def)
  from p have "d \<in> member_names ms" and "p \<in> set (dependents ms d)"
    by (auto simp: dependents_of_def graph_lookup split: if_splits)
  then show "e \<in> internal_deps ms"
    unfolding e internal_deps_def set_dependents by blast
next
  fix e assume "e \<in> internal_deps ms"
  then obtain d A where e: "e = (d, PackageJson.name (snd A))" and A: "A \<in> set ms"
    "d \<in> set (dep_keys (snd A))" "d \<in> member_names ms"
    unfolding internal_deps_def by blast
  from A have "PackageJson.name (snd A) \<in> set (dependents ms d)"
    unfolding set_dependents by blast
  with A(3) show "e \<in> graph_edges (graph (buildWorkspace ms))"
    by (simp add: e graph_edges_def dependents_of_def graph_lookup)
qed

lemma acyclic_rank:
  fixes f :: "'a \<Rightarrow> nat"
  assumes "\<And>d p. (d, p) \<in> r \<Longrightarrow> f d < f p"
  shows "acyclic r"
  by (rule acyclicI_order[where f = "\<lambda>x. - int (f x)"]) (simp add: assms)

lemma ex_chain_acyclic: "acyclic (internal_deps ex_chain)"
  unfolding graph_edges_internal[symmetric] ex_chain_graph
  by (rule acyclic_rank[where f = "\<lambda>x. if x = ''c'' then 0 else if x = ''b'' then 1 else 2"])
     (auto simp: graph_edges_def dependents_of_def split: if_splits)

lemma ex_chain_distinct: "distinct (map (\<lambda>m. PackageJson.name (snd m)) ex_chain)"
  by (simp add: ex_chain_def manifest_def)

lemma ex_dup_distinct: "distinct (map (\<lambda>m. PackageJson.name (snd m)) ex_dup)"
  by (simp add: ex_dup_def manifest_def)

lemma ex_dup_graph: "graph (buildWorkspace ex_dup) = [(''a'', []), (''b'', [''a'', ''a''])]"
  by (simp add: ex_dup_def build_eval)

lemma ex_dup_acyclic: "acyclic (internal_deps ex_dup)"
  unfolding graph_edges_internal[symmetric] ex_dup_graph
  by (rule acyclic_rank[where f = "\<lambda>x. if x = ''b'' then 0 else 1"])
     (auto simp: graph_edges_def dependents_of_def split: if_splits)

lemma ex_dup_in_degrees:
  "in_degrees (packages (buildWorkspace ex_dup)) (graph (buildWorkspace ex_dup))
     = [(''a'', Num 2), (''b'', Num 0)]"
  unfolding ex_dup_graph
  by (simp add: ex_dup_def mk_package_def manifest_def topo_eval)

lemma ex_dup_topoSort:
  "topoSort (packages (buildWorkspace ex_dup)) (graph (buildWorkspace ex_dup)) = Inr [''b'', ''a'']"
  unfolding ex_dup_graph
  by (simp add: ex_dup_def mk_package_def manifest_def topo_eval)

lemma ex_cycle_graph:
  "graph (buildWorkspace ex_cycle) = [(''a'', [''b'']), (''b'', [''a'']), (''c'', [])]"
  by (simp add: ex_cycle_def build_eval)

lemma ex_cycle_emit:
  "emit_order (packages (buildWorkspace ex_cycle)) (graph (buildWorkspace ex_cycle)) = [''c'']"
  unfolding ex_cycle_graph
  by (simp add: ex_cycle_def mk_package_def manifest_def topo_eval)

lemma ex_cycle_distinct: "distinct (map (\<lambda>m. PackageJson.name (snd m)) ex_cycle)"
  by (simp add: ex_cycle_def manifest_def)

text \<open>
  The theorems below are about workspaces whose members have distinct names, as the data
  model of the specification has them. The hypothesis is needed: the map of in-degrees and
  the graph hold one entry per name, the count that decides on \<open>CycleDetected\<close> is the number
  of packages, so with two records of one name \<open>topoSort\<close> emits fewer names than there are
  packages and signals a cycle where there is none.
\<close>

lemma ex_twins_graph: "graph (buildWorkspace ex_twins) = [(''a'', []), (''b'', [''a''])]"
  by (simp add: ex_twins_def build_eval)

lemma ex_twins_topoSort:
  "topoSort (packages (buildWorkspace ex_twins)) (graph (buildWorkspace ex_twins))
     = Inl CycleDetected
   \<and> emit_order (packages (buildWorkspace ex_twins)) (graph (buildWorkspace ex_twins))
     = [''b'', ''a'']
   \<and> acyclic (internal_deps ex_twins)
   \<and> \<not> distinct (map (\<lambda>m. PackageJson.name (snd m)) ex_twins)"
proof -
  have e: "emit_order (packages (buildWorkspace ex_twins)) (graph (buildWorkspace ex_twins))
     = [''b'', ''a'']"
    unfolding ex_twins_graph
    by (simp add: ex_twins_def mk_package_def manifest_def topo_eval)
  have l: "length (packages (buildWorkspace ex_twins)) = 3"
    by (simp add: ex_twins_def)
  have t: "topoSort (packages (buildWorkspace ex_twins)) (graph (buildWorkspace ex_twins))
     = Inl CycleDetected"
    unfolding topoSort_def Let_def e l by simp
  have a: "acyclic (internal_deps ex_twins)"
    unfolding graph_edges_internal[symmetric] ex_twins_graph
    by (rule acyclic_rank[where f = "\<lambda>x. if x = ''b'' then 0 else 1"])
       (auto simp: graph_edges_def dependents_of_def split: if_splits)
  have d: "\<not> distinct (map (\<lambda>m. PackageJson.name (snd m)) ex_twins)"
    by (simp add: ex_twins_def manifest_def)
  from e t a d show ?thesis by simp
qed

text \<open>
  C1. For a workspace whose members have distinct names and whose internal dependency
  relation is acyclic, \<open>topoSort\<close> on the packages and the graph that \<open>buildWorkspace\<close> gives
  returns an ordering that is a permutation of the package names, and for every edge the
  graph records, from a dependency to a dependent, the index of the dependency in the
  ordering is strictly less than the index of the dependent.
\<close>

theorem topoSort_sorts:
  assumes "distinct (map (\<lambda>m. PackageJson.name (snd m)) ms)"
    and "acyclic (internal_deps ms)"
  shows "\<exists>out. topoSort (packages (buildWorkspace ms)) (graph (buildWorkspace ms)) = Inr out
           \<and> mset out = mset (map (\<lambda>m. PackageJson.name (snd m)) ms)
           \<and> (\<forall>i j. i < length out \<and> j < length out
                    \<and> out ! j \<in> set (dependents_of (graph (buildWorkspace ms)) (out ! i))
                  \<longrightarrow> i < j)"
proof -
  let ?pkgs = "packages (buildWorkspace ms)" and ?g = "graph (buildWorkspace ms)"
  note wf = workspace_well_formed[OF assms(1)]
  from assms(2) have ac: "acyclic (graph_edges ?g)" by (simp add: graph_edges_internal)
  have n: "map name ?pkgs = map (\<lambda>m. PackageJson.name (snd m)) ms"
    by (simp only: packages_buildWorkspace names_packages)
  note ta = topoSort_acyclic[OF wf ac, unfolded n]
  have "topoSort ?pkgs ?g = Inr (emit_order ?pkgs ?g)"
    and "mset (emit_order ?pkgs ?g) = mset (map (\<lambda>m. PackageJson.name (snd m)) ms)"
    by (rule ta)+
  moreover have "\<forall>i j. i < length (emit_order ?pkgs ?g) \<and> j < length (emit_order ?pkgs ?g)
                    \<and> emit_order ?pkgs ?g ! j \<in> set (dependents_of ?g (emit_order ?pkgs ?g ! i))
                  \<longrightarrow> i < j"
    using emit_order_before[OF wf] by blast
  ultimately show ?thesis by blast
qed

theorem topoSort_sorts_witness:
  "\<exists>out. topoSort (packages (buildWorkspace ex_chain)) (graph (buildWorkspace ex_chain)) = Inr out
         \<and> out = [''c'', ''b'', ''a'']
         \<and> mset out = mset [''a'', ''b'', ''c'']
         \<and> out ! 2 \<in> set (dependents_of (graph (buildWorkspace ex_chain)) (out ! 1))
         \<and> out ! 1 \<in> set (dependents_of (graph (buildWorkspace ex_chain)) (out ! 0))"
proof -
  from topoSort_sorts[OF ex_chain_distinct ex_chain_acyclic] obtain out where
    t: "topoSort (packages (buildWorkspace ex_chain)) (graph (buildWorkspace ex_chain)) = Inr out"
    and m: "mset out = mset (map (\<lambda>m. PackageJson.name (snd m)) ex_chain)"
    by blast
  from t ex_chain_topoSort have o: "out = [''c'', ''b'', ''a'']" by simp
  from m have "mset out = mset [''a'', ''b'', ''c'']" by (simp add: ex_chain_def manifest_def)
  with t o show ?thesis by (simp add: ex_chain_graph dependents_of_def)
qed

text \<open>
  C2. For a workspace whose members have distinct names, \<open>topoSort\<close> fails with the
  cycle error exactly when the internal dependency relation has a cycle, which is exactly
  when the emitted sequence is shorter than the package list; whenever it returns an
  ordering, the ordering is a permutation of all the package names, never a part of
  them. In particular two members that list each other make it fail.
\<close>

theorem topoSort_cycle:
  assumes "distinct (map (\<lambda>m. PackageJson.name (snd m)) ms)"
  shows "(topoSort (packages (buildWorkspace ms)) (graph (buildWorkspace ms)) = Inl CycleDetected
            \<longleftrightarrow> \<not> acyclic (internal_deps ms))
         \<and> (length (emit_order (packages (buildWorkspace ms)) (graph (buildWorkspace ms)))
              < length (packages (buildWorkspace ms))
            \<longleftrightarrow> \<not> acyclic (internal_deps ms))
         \<and> (\<forall>out. topoSort (packages (buildWorkspace ms)) (graph (buildWorkspace ms)) = Inr out
              \<longrightarrow> mset out = mset (map (\<lambda>m. PackageJson.name (snd m)) ms))
         \<and> (\<forall>A B. A \<in> set ms \<and> B \<in> set ms
                \<and> PackageJson.name (snd B) \<in> set (dep_keys (snd A))
                \<and> PackageJson.name (snd A) \<in> set (dep_keys (snd B))
              \<longrightarrow> topoSort (packages (buildWorkspace ms)) (graph (buildWorkspace ms))
                    = Inl CycleDetected)"
proof -
  let ?pkgs = "packages (buildWorkspace ms)" and ?g = "graph (buildWorkspace ms)"
  let ?names = "map (\<lambda>m. PackageJson.name (snd m)) ms"
  note wf = workspace_well_formed[OF assms]
  have e: "graph_edges ?g = internal_deps ms" by (rule graph_edges_internal)
  have n: "map name ?pkgs = ?names"
    by (simp only: packages_buildWorkspace names_packages)
  have main: "(topoSort ?pkgs ?g = Inl CycleDetected \<longleftrightarrow> \<not> acyclic (internal_deps ms))
      \<and> (length (emit_order ?pkgs ?g) < length ?pkgs \<longleftrightarrow> \<not> acyclic (internal_deps ms))
      \<and> (\<forall>out. topoSort ?pkgs ?g = Inr out \<longrightarrow> mset out = mset ?names)"
  proof (cases "acyclic (internal_deps ms)")
    case True
    then have ac: "acyclic (graph_edges ?g)" by (simp add: e)
    note ta = topoSort_acyclic[OF wf ac, unfolded n]
    have t: "topoSort ?pkgs ?g = Inr (emit_order ?pkgs ?g)"
      and m: "mset (emit_order ?pkgs ?g) = mset ?names"
      by (rule ta)+
    from m have "length (emit_order ?pkgs ?g) = length ?names" by (rule mset_eq_length)
    then have l: "\<not> length (emit_order ?pkgs ?g) < length ?pkgs" by simp
    from t have "topoSort ?pkgs ?g \<noteq> Inl CycleDetected" by simp
    moreover from t m have "\<forall>out. topoSort ?pkgs ?g = Inr out \<longrightarrow> mset out = mset ?names"
      by (simp only: sum.inject) blast
    ultimately show ?thesis using True l by blast
  next
    case False
    then have cy: "\<not> acyclic (graph_edges ?g)" by (simp add: e)
    note tc = topoSort_cyclic[OF wf cy]
    have t: "topoSort ?pkgs ?g = Inl CycleDetected"
      and l: "length (emit_order ?pkgs ?g) < length ?pkgs"
      by (rule tc)+
    from t have "\<forall>out. topoSort ?pkgs ?g = Inr out \<longrightarrow> mset out = mset ?names" by simp
    with t l False show ?thesis by blast
  qed
  have two: "\<forall>A B. A \<in> set ms \<and> B \<in> set ms
                \<and> PackageJson.name (snd B) \<in> set (dep_keys (snd A))
                \<and> PackageJson.name (snd A) \<in> set (dep_keys (snd B))
              \<longrightarrow> topoSort ?pkgs ?g = Inl CycleDetected"
  proof (intro allI impI)
    fix A B
    assume h: "A \<in> set ms \<and> B \<in> set ms
                \<and> PackageJson.name (snd B) \<in> set (dep_keys (snd A))
                \<and> PackageJson.name (snd A) \<in> set (dep_keys (snd B))"
    let ?a = "PackageJson.name (snd A)" and ?b = "PackageJson.name (snd B)"
    from h have "?a \<in> member_names ms" "?b \<in> member_names ms"
      by (auto simp: member_names_def)
    with h have "(?b, ?a) \<in> internal_deps ms" "(?a, ?b) \<in> internal_deps ms"
      unfolding internal_deps_def by blast+
    then have "(?a, ?a) \<in> (internal_deps ms)\<^sup>+" by (meson trancl.simps)
    then have "\<not> acyclic (internal_deps ms)" by (auto simp: acyclic_def)
    with main show "topoSort ?pkgs ?g = Inl CycleDetected" by blast
  qed
  from main two show ?thesis by blast
qed

theorem topoSort_cycle_witness:
  "topoSort (packages (buildWorkspace ex_cycle)) (graph (buildWorkspace ex_cycle)) = Inl CycleDetected
   \<and> \<not> acyclic (internal_deps ex_cycle)
   \<and> emit_order (packages (buildWorkspace ex_cycle)) (graph (buildWorkspace ex_cycle)) = [''c'']
   \<and> topoSort (packages (buildWorkspace ex_chain)) (graph (buildWorkspace ex_chain))
       = Inr [''c'', ''b'', ''a'']
   \<and> acyclic (internal_deps ex_chain)"
proof -
  let ?A = "(''packages/a'', manifest ''a'' ''1.0.0'' (Some [(''b'', JStr ''^1.0.0'')]) None)"
  let ?B = "(''packages/b'', manifest ''b'' ''1.0.0'' (Some [(''a'', JStr ''^1.0.0'')]) None)"
  note c = topoSort_cycle[OF ex_cycle_distinct]
  have "?A \<in> set ex_cycle \<and> ?B \<in> set ex_cycle
        \<and> PackageJson.name (snd ?B) \<in> set (dep_keys (snd ?A))
        \<and> PackageJson.name (snd ?A) \<in> set (dep_keys (snd ?B))"
    by (simp add: ex_cycle_def dep_keys_def DEP_FIELDS_def manifest_def)
  with c have t: "topoSort (packages (buildWorkspace ex_cycle)) (graph (buildWorkspace ex_cycle))
                   = Inl CycleDetected"
    by blast
  with c have "\<not> acyclic (internal_deps ex_cycle)" by blast
  with t ex_cycle_emit ex_chain_topoSort ex_chain_acyclic show ?thesis by simp
qed

text \<open>
  C9. For a workspace whose members have distinct names and whose internal dependency
  relation is acyclic, \<open>topoSort\<close> returns every package name exactly once and as many names
  as there are packages, also when a record names the same member in several dependency
  fields. The in-degree computed for a name is the number of adjacency entries that name
  it, an entry listed twice counted twice; and one pass over an adjacency list lowers the
  in-degree of a name by the number of entries of that list naming it.
\<close>

theorem topoSort_duplicate_edges:
  assumes "distinct (map (\<lambda>m. PackageJson.name (snd m)) ms)"
    and "acyclic (internal_deps ms)"
  shows "(\<exists>out. topoSort (packages (buildWorkspace ms)) (graph (buildWorkspace ms)) = Inr out
            \<and> distinct out \<and> set out = member_names ms \<and> length out = length ms)
         \<and> (\<forall>v\<in>member_names ms.
               Map_get (in_degrees (packages (buildWorkspace ms)) (graph (buildWorkspace ms))) v
                 = Some (Num (int (sum_list
                     (map (\<lambda>d. count_list (dependents_of (graph (buildWorkspace ms)) d) v)
                          (map (\<lambda>m. PackageJson.name (snd m)) ms))))))
         \<and> (\<forall>inDeg q vs v i. Map_get inDeg v = Some (Num i) \<longrightarrow>
               Map_get (fst (foldl relax (inDeg, q) vs)) v
                 = Some (Num (i - int (count_list vs v))))"
proof -
  let ?pkgs = "packages (buildWorkspace ms)" and ?g = "graph (buildWorkspace ms)"
  let ?names = "map (\<lambda>m. PackageJson.name (snd m)) ms"
  note wf = workspace_well_formed[OF assms(1)]
  from assms(2) have ac: "acyclic (graph_edges ?g)" by (simp add: graph_edges_internal)
  have n: "map name ?pkgs = ?names"
    by (simp only: packages_buildWorkspace names_packages)
  have s: "set ?names = member_names ms" by (simp add: member_names_def)
  note ta = topoSort_acyclic[OF wf ac, unfolded n]
  have t: "topoSort ?pkgs ?g = Inr (emit_order ?pkgs ?g)"
    and m: "mset (emit_order ?pkgs ?g) = mset ?names"
    by (rule ta)+
  from m have "set (emit_order ?pkgs ?g) = set ?names" by (rule mset_eq_setD)
  moreover from m have "length (emit_order ?pkgs ?g) = length ?names" by (rule mset_eq_length)
  moreover have "distinct (emit_order ?pkgs ?g)" by (rule emit_order_props(1)[OF wf])
  ultimately have 1: "\<exists>out. topoSort ?pkgs ?g = Inr out
            \<and> distinct out \<and> set out = member_names ms \<and> length out = length ms"
    using t s by simp
  have 2: "\<forall>v\<in>member_names ms.
               Map_get (in_degrees ?pkgs ?g) v
                 = Some (Num (int (sum_list
                     (map (\<lambda>d. count_list (dependents_of ?g d) v) ?names))))"
  proof
    fix v assume "v \<in> member_names ms"
    then have "v \<in> set (map name ?pkgs)" by (simp only: n s)
    from in_degrees_names[OF wf this]
    show "Map_get (in_degrees ?pkgs ?g) v
            = Some (Num (int (sum_list (map (\<lambda>d. count_list (dependents_of ?g d) v) ?names))))"
      by (simp only: n) (simp add: remaining_def)
  qed
  have 3: "\<forall>inDeg q vs v i. Map_get inDeg v = Some (Num i) \<longrightarrow>
               Map_get (fst (foldl relax (inDeg, q) vs)) v
                 = Some (Num (i - int (count_list vs v)))"
    using foldl_relax_entry by blast
  from 1 2 3 show ?thesis by blast
qed

theorem topoSort_duplicate_edges_witness:
  "(\<exists>out. topoSort (packages (buildWorkspace ex_dup)) (graph (buildWorkspace ex_dup)) = Inr out
        \<and> out = [''b'', ''a''] \<and> distinct out \<and> length out = length ex_dup)
   \<and> dependents_of (graph (buildWorkspace ex_dup)) ''b'' = [''a'', ''a'']
   \<and> Map_get (in_degrees (packages (buildWorkspace ex_dup)) (graph (buildWorkspace ex_dup))) ''a''
       = Some (Num 2)"
proof -
  note d = topoSort_duplicate_edges[OF ex_dup_distinct ex_dup_acyclic]
  from d obtain out where
    t: "topoSort (packages (buildWorkspace ex_dup)) (graph (buildWorkspace ex_dup)) = Inr out"
    and o: "distinct out" "length out = length ex_dup"
    by blast
  from t ex_dup_topoSort have "out = [''b'', ''a'']" by simp
  with t o have 1: "\<exists>out. topoSort (packages (buildWorkspace ex_dup)) (graph (buildWorkspace ex_dup))
                        = Inr out
        \<and> out = [''b'', ''a''] \<and> distinct out \<and> length out = length ex_dup"
    by blast
  have 2: "dependents_of (graph (buildWorkspace ex_dup)) ''b'' = [''a'', ''a'']"
    by (simp add: ex_dup_graph dependents_of_def)
  have "''a'' \<in> member_names ex_dup" by (simp add: member_names_def ex_dup_def manifest_def)
  with d have "Map_get (in_degrees (packages (buildWorkspace ex_dup)) (graph (buildWorkspace ex_dup))) ''a''
       = Some (Num (int (sum_list
                     (map (\<lambda>d. count_list (dependents_of (graph (buildWorkspace ex_dup)) d) ''a'')
                          (map (\<lambda>m. PackageJson.name (snd m)) ex_dup)))))"
    by blast
  also have "\<dots> = Some (Num 2)"
    unfolding ex_dup_graph by (simp add: ex_dup_def manifest_def dependents_of_def)
  finally show ?thesis using 1 2 by blast
qed


end
